theory Spec2Isabelle
  imports Complex_Main
begin

section \<open>Rate limiter (src/utils/rate\_limiter.py)\<close>

text \<open>
  Time stamps are the values of \<open>time.time()\<close>. They are modelled as real numbers:
  comparison and subtraction are taken exactly, rounding of the machine floats is left
  out. What is kept of the machine floats is the range of the power operator, which
  raises instead of returning a result that is too large. Every clock read of the source
  is an explicit argument of the model.
\<close>

datatype py_error = IndexError | OverflowError

record RateLimitConfig =
  requests_per_period :: int
  period_seconds :: int
  burst_size :: "int option"
  backoff_factor :: real
  max_backoff :: real
  jitter :: bool

record RateLimiter =
  config :: RateLimitConfig
  request_times :: "real list"
  last_request_time :: real
  consecutive_failures :: nat

text \<open>
  The purge loop of \<open>can_make_request\<close>:
  \<open>while self.request_times and self.request_times[0] < cutoff: popleft()\<close>.
\<close>

fun purge :: "real \<Rightarrow> real list \<Rightarrow> real list" where
  "purge cutoff [] = []"
| "purge cutoff (t # ts) = (if t < cutoff then purge cutoff ts else t # ts)"

definition can_make_request :: "real \<Rightarrow> RateLimiter \<Rightarrow> bool \<times> RateLimiter" where
  "can_make_request now rl =
     (let cutoff = now - real_of_int (period_seconds (config rl));
          rl' = rl\<lparr>request_times := purge cutoff (request_times rl)\<rparr>
      in (int (length (request_times rl')) < requests_per_period (config rl'), rl'))"

text \<open>\<open>random.uniform(a, b)\<close> is \<open>a + (b - a) * random()\<close>; \<open>u\<close> is the value of \<open>random()\<close>.\<close>

definition uniform :: "real \<Rightarrow> real \<Rightarrow> real \<Rightarrow> real" where
  "uniform a b u = a + (b - a) * u"

text \<open>
  \<open>x ** n\<close> for a float \<open>x\<close> and a non-negative integer \<open>n\<close>: Python raises
  OverflowError when the result leaves the range of a double, that is when its size
  reaches \<open>2 ^ 1024\<close>.
\<close>

definition float_pow :: "real \<Rightarrow> nat \<Rightarrow> py_error + real" where
  "float_pow x n = (if 2 ^ 1024 \<le> \<bar>x ^ n\<bar> then Inl OverflowError else Inr (x ^ n))"

text \<open>
  The backoff term of \<open>get_delay\<close>: \<open>min(backoff_factor ** consecutive_failures, max_backoff)\<close>.
  The power is evaluated first, so its overflow is raised before \<open>min\<close> can cap it.
\<close>

definition backoff :: "RateLimitConfig \<Rightarrow> nat \<Rightarrow> py_error + real" where
  "backoff cfg n =
     (case float_pow (backoff_factor cfg) n of
        Inl e \<Rightarrow> Inl e
      | Inr p \<Rightarrow> Inr (min p (max_backoff cfg)))"

text \<open>
  \<open>get_delay\<close> reads the clock twice: \<open>now1\<close> inside \<open>can_make_request\<close>, \<open>now2\<close> in its
  own body. \<open>self.request_times[0]\<close> raises IndexError on an empty deque, and the
  backoff term is computed only when \<open>consecutive_failures > 0\<close>.
\<close>

definition get_delay :: "real \<Rightarrow> real \<Rightarrow> real \<Rightarrow> RateLimiter \<Rightarrow> (py_error + real) \<times> RateLimiter" where
  "get_delay now1 now2 u rl =
     (case can_make_request now1 rl of (ok, rl') \<Rightarrow>
        if ok then (Inr 0, rl')
        else (case request_times rl' of
                [] \<Rightarrow> (Inl IndexError, rl')
              | oldest_request # _ \<Rightarrow>
                  let delay0 = (oldest_request + real_of_int (period_seconds (config rl'))) - now2;
                      delay1 = (if consecutive_failures rl' > 0
                                then (case backoff (config rl') (consecutive_failures rl') of
                                        Inl e \<Rightarrow> Inl e
                                      | Inr b \<Rightarrow> Inr (max delay0 b))
                                else Inr delay0)
                  in case delay1 of
                       Inl e \<Rightarrow> (Inl e, rl')
                     | Inr delay \<Rightarrow>
                         let delay2 = (if jitter (config rl')
                                       then delay + uniform 0 (delay * (1 / 10)) u
                                       else delay)
                         in (Inr (max 0 delay2), rl')))"

definition record_request :: "real \<Rightarrow> bool \<Rightarrow> RateLimiter \<Rightarrow> RateLimiter" where
  "record_request now success rl =
     (let rl1 = rl\<lparr>request_times := request_times rl @ [now], last_request_time := now\<rparr>
      in if success then rl1\<lparr>consecutive_failures := 0\<rparr>
         else rl1\<lparr>consecutive_failures := consecutive_failures rl1 + 1\<rparr>)"

text \<open>\<open>record_request(success=False)\<close> called once per clock value of the list.\<close>

definition record_failures :: "real list \<Rightarrow> RateLimiter \<Rightarrow> RateLimiter" where
  "record_failures nows rl = foldl (\<lambda>r now. record_request now False r) rl nows"

text \<open>The time stamps of the window: those not older than \<open>now - period_seconds\<close>.\<close>

definition in_window :: "real \<Rightarrow> RateLimiter \<Rightarrow> real list" where
  "in_window now rl =
     filter (\<lambda>t. now - real_of_int (period_seconds (config rl)) \<le> t) (request_times rl)"


section \<open>Proxy rotation (src/utils/proxy\_rotation.py)\<close>

text \<open>
  A Python string is a sequence of Unicode code points; the strings of this module are
  lists of code points, and \<open>ascii\<close> turns an ASCII literal into one.
\<close>

type_synonym pystr = "nat list"

definition ascii :: "string \<Rightarrow> pystr" where
  "ascii s = map of_char s"

definition colon :: nat where
  "colon = of_char (CHR '':'')"

text \<open>
  \<open>ProxyRotator\<close> has the fields \<open>proxies\<close>, \<open>last_update\<close> and \<open>update_interval\<close>.
  The field \<open>fetches\<close> is bookkeeping of the model: it counts the calls of
  \<open>_load_proxies\<close>, so that a download of the source lists is visible in the state.
\<close>

record ProxyRotator =
  proxies :: "pystr list"
  last_update :: nat
  update_interval :: nat
  fetches :: nat

text \<open>Python's \<open>str.split(sep)\<close> for a one-character separator.\<close>

fun split_on :: "nat \<Rightarrow> pystr \<Rightarrow> pystr list" where
  "split_on c [] = [[]]"
| "split_on c (x # xs) =
     (if x = c then [] # split_on c xs
      else (case split_on c xs of [] \<Rightarrow> [[x]] | w # ws \<Rightarrow> (x # w) # ws))"

text \<open>
  \<open>str.isdigit\<close>: the string is not empty and every character is a digit. The ASCII
  digits are the code points 48 to 57. Beyond ASCII the interpreter's Unicode database
  decides (superscript digits, the digits of other scripts); that table is the
  parameter \<open>unicode_digit\<close>.
\<close>

definition isdigit :: "(nat \<Rightarrow> bool) \<Rightarrow> pystr \<Rightarrow> bool" where
  "isdigit unicode_digit s =
     (s \<noteq> [] \<and> list_all (\<lambda>ch. (48 \<le> ch \<and> ch \<le> 57) \<or> (128 \<le> ch \<and> unicode_digit ch)) s)"

text \<open>
  The filter of \<open>_load_proxies\<close>:
  \<open>':' in proxy and len(proxy.split(':')) == 2\<close> and then \<open>port.isdigit()\<close>.
\<close>

definition valid_proxy :: "(nat \<Rightarrow> bool) \<Rightarrow> pystr \<Rightarrow> bool" where
  "valid_proxy unicode_digit proxy =
     (List.member proxy colon \<and>
      (case split_on colon proxy of
         [host, port] \<Rightarrow> isdigit unicode_digit port
       | _ \<Rightarrow> False))"

text \<open>
  \<open>responses\<close> is what the three source lists answer when they are fetched: for each
  source \<open>None\<close> when the request raised or the status was not 200 (the inner
  \<open>try\<close> swallows it), otherwise the stripped non-empty lines of the body.
\<close>

definition load_proxies ::
  "(nat \<Rightarrow> bool) \<Rightarrow> pystr list option list \<Rightarrow> ProxyRotator \<Rightarrow> ProxyRotator" where
  "load_proxies unicode_digit responses pr =
     (let all_proxies = concat (map (\<lambda>r. case r of None \<Rightarrow> [] | Some ls \<Rightarrow> ls) responses)
      in pr\<lparr>proxies := map (\<lambda>proxy. ascii ''http://'' @ proxy)
                          (filter (valid_proxy unicode_digit) all_proxies),
            fetches := fetches pr + 1\<rparr>)"

text \<open>
  \<open>ProxyRotator.__init__\<close>: empty list, \<open>last_update = 0\<close>, \<open>update_interval = 3600\<close>
  (commented "Update every hour" in the source), then one \<open>_load_proxies\<close>.
\<close>

definition init_rotator :: "(nat \<Rightarrow> bool) \<Rightarrow> pystr list option list \<Rightarrow> ProxyRotator" where
  "init_rotator unicode_digit responses =
     load_proxies unicode_digit responses
       \<lparr>proxies = [], last_update = 0, update_interval = 3600, fetches = 0\<rparr>"

text \<open>
  \<open>random.sample(self.proxies, min(10, len(self.proxies)))\<close>: \<open>order\<close> is the random
  order in which positions of the list are drawn.
\<close>

definition sample :: "nat list \<Rightarrow> pystr list \<Rightarrow> nat \<Rightarrow> pystr list" where
  "sample order ps k = take k (map (\<lambda>i. ps ! i) (filter (\<lambda>i. i < length ps) order))"

text \<open>
  \<open>get_working_proxy\<close>. \<open>alive\<close> is the outcome of \<open>test_proxy\<close> (False when the probe
  raised). The function reads no clock.
\<close>

definition get_working_proxy ::
  "(nat \<Rightarrow> bool) \<Rightarrow> pystr list option list \<Rightarrow> nat list \<Rightarrow> (pystr \<Rightarrow> bool) \<Rightarrow> ProxyRotator
     \<Rightarrow> pystr option \<times> ProxyRotator" where
  "get_working_proxy unicode_digit responses order alive pr =
     (let pr1 = (if proxies pr = [] then load_proxies unicode_digit responses pr else pr);
          tested_proxies = sample order (proxies pr1) (min 10 (length (proxies pr1)))
      in (List.find alive tested_proxies, pr1))"

section \<open>Listing driver (src/scraper/gmaps\_scraper.py)\<close>

text \<open>
  The dictionary returned by \<open>_extract_listing_info\<close>. A \<open>None\<close> name (no text content)
  is represented by the empty string: the field is only ever tested for truthiness
  before it is used.
\<close>

record business_details =
  name :: string
  phone :: string
  website :: string
  email :: string

text \<open>
  What one pass of the extraction loop finds at a card: the click raised (caught by the
  \<open>except\<close> of the loop body), \<open>_extract_listing_info\<close> returned \<open>None\<close>, or it
  returned a dictionary.
\<close>

datatype listing_outcome = Click_error | No_details | Details business_details

text \<open>The messages handed to the progress callback, one constructor per format string.\<close>

datatype scraper_message =
    Navigating
  | Handling_consent
  | Waiting_for_listings
  | Scrolling
  | Scroll_found nat nat
  | Spinner_detected
  | Loading_completed
  | Loading_timeout
  | Starting_extract nat
  | Processing_listing nat nat
  | Found_lead string
  | No_target_data string
  | Failed_extract nat
  | Processed nat nat

text \<open>One call \<open>progress_callback(progress, total, successful, message, new_lead)\<close>.\<close>

record progress_event =
  ev_progress :: nat
  ev_total :: nat
  ev_successful :: nat
  ev_message :: scraper_message
  ev_new_lead :: "business_details option"

definition report :: "nat \<Rightarrow> nat \<Rightarrow> nat \<Rightarrow> scraper_message \<Rightarrow> progress_event" where
  "report p t s m =
     \<lparr>ev_progress = p, ev_total = t, ev_successful = s, ev_message = m, ev_new_lead = None\<rparr>"

text \<open>
  The browser page as the scraper observes it. The scroll loop performs one scroll per
  iteration, so what it reads is indexed by the iteration (counted from 0):
  \<open>card_count\<close> is \<open>business_cards.count()\<close> (\<open>None\<close>: Playwright raised),
  \<open>spinner_visible\<close> is \<open>spinner.count() > 0\<close>, \<open>spinner_hides\<close> tells whether
  \<open>wait_for(state="hidden")\<close> returned before its timeout. \<open>final_count\<close> is the count
  read after the loop, \<open>listing\<close> what the extraction finds at a card.
\<close>

record page =
  goto_ok :: bool
  listings_found :: bool
  card_count :: "nat \<Rightarrow> nat option"
  spinner_visible :: "nat \<Rightarrow> bool"
  spinner_hides :: "nat \<Rightarrow> bool"
  final_count :: nat
  listing :: "nat \<Rightarrow> listing_outcome"

datatype scrape_error = Navigation_failed | No_listings | Page_crashed

record scroll_state =
  previous_count :: int
  same_count_repeats :: nat
  consecutive_no_new_results :: nat
  scrolls :: nat

definition max_same_count :: nat where
  "max_same_count = 8"

definition max_consecutive_no_new :: nat where
  "max_consecutive_no_new = 10"

datatype stop_reason = No_new_results | Stable_count | Scroll_limit

datatype iteration = Raise scrape_error | Break stop_reason scroll_state | Continue scroll_state

text \<open>
  One pass through the body of \<open>while True\<close> in \<open>_scroll_and_load\<close>. A scroll error is
  caught and logged by the source and changes nothing.
\<close>

definition scroll_iteration :: "page \<Rightarrow> scroll_state \<Rightarrow> iteration \<times> progress_event list" where
  "scroll_iteration pg st =
     (case card_count pg (scrolls st) of
        None \<Rightarrow> (Raise Page_crashed, [])
      | Some current_count \<Rightarrow>
          let is_loading = spinner_visible pg (scrolls st);
              evs = report 0 current_count 0 (Scroll_found (scrolls st + 1) current_count)
                    # (if is_loading
                       then [report 0 current_count 0 Spinner_detected,
                             report 0 current_count 0
                               (if spinner_hides pg (scrolls st) then Loading_completed
                                else Loading_timeout)]
                       else []);
              st1 = (if int current_count = previous_count st
                     then st\<lparr>consecutive_no_new_results := consecutive_no_new_results st + 1,
                             same_count_repeats := same_count_repeats st + 1\<rparr>
                     else st\<lparr>consecutive_no_new_results := 0, same_count_repeats := 0\<rparr>)
          in if consecutive_no_new_results st1 \<ge> max_consecutive_no_new
             then (Break No_new_results st1, evs)
             else if same_count_repeats st1 \<ge> max_same_count \<and> \<not> is_loading
             then (Break Stable_count st1, evs)
             else let st2 = st1\<lparr>previous_count := int current_count,
                                 scrolls := scrolls st1 + 1\<rparr>
                  in if scrolls st2 > 100 then (Break Scroll_limit st2, evs)
                     else (Continue st2, evs))"

function scroll_loop ::
  "page \<Rightarrow> scroll_state \<Rightarrow> (scrape_error + stop_reason \<times> scroll_state) \<times> progress_event list" where
  "scroll_loop pg st =
     (case scroll_iteration pg st of
        (Raise e, evs) \<Rightarrow> (Inl e, evs)
      | (Break r st', evs) \<Rightarrow> (Inr (r, st'), evs)
      | (Continue st', evs) \<Rightarrow>
          (case scroll_loop pg st' of (res, evs') \<Rightarrow> (res, evs @ evs')))"
  by pat_completeness auto
termination
  by (relation "measure (\<lambda>(pg, st). 101 - scrolls st)")
     (auto simp: scroll_iteration_def Let_def split: option.splits if_splits)

declare scroll_loop.simps [simp del]

definition initial_scroll_state :: scroll_state where
  "initial_scroll_state =
     \<lparr>previous_count = - 1, same_count_repeats = 0, consecutive_no_new_results = 0, scrolls = 0\<rparr>"

text \<open>
  The number of the last iteration that ran. The source numbers the running iteration
  \<open>scrolls + 1\<close>; the two signal breaks leave before \<open>scrolls\<close> is incremented, the
  safety break after.
\<close>

definition last_iteration :: "stop_reason \<times> scroll_state \<Rightarrow> nat" where
  "last_iteration r =
     (case fst r of Scroll_limit \<Rightarrow> scrolls (snd r) | _ \<Rightarrow> scrolls (snd r) + 1)"

text \<open>
  \<open>_scroll_and_load\<close>: the loop, then the final wait for the spinner (no callback, no
  effect on the result) and the final count.
\<close>

definition scroll_and_load :: "page \<Rightarrow> (scrape_error + nat) \<times> progress_event list" where
  "scroll_and_load pg =
     (case scroll_loop pg initial_scroll_state of
        (Inl e, evs) \<Rightarrow> (Inl e, evs)
      | (Inr _, evs) \<Rightarrow> (Inr (final_count pg), evs))"

record extract_state =
  results :: "business_details list"
  successful_extractions :: nat
  emitted :: "progress_event list"

definition emit :: "progress_event \<Rightarrow> extract_state \<Rightarrow> extract_state" where
  "emit e s = s\<lparr>emitted := emitted s @ [e]\<rparr>"

text \<open>The body of \<open>for index in range(total_listings)\<close> in \<open>_extract_all_listings\<close>.\<close>

definition extract_listing :: "page \<Rightarrow> nat \<Rightarrow> nat \<Rightarrow> extract_state \<Rightarrow> extract_state" where
  "extract_listing pg total_listings index s =
     (let s1 = emit (report (index + 1) total_listings (successful_extractions s)
                       (Processing_listing (index + 1) total_listings)) s;
          failed = emit (report (index + 1) total_listings (successful_extractions s1)
                           (Failed_extract (index + 1))) s1;
          processed = (\<lambda>s'. emit (report (index + 1) total_listings (successful_extractions s')
                                    (Processed (index + 1) total_listings)) s')
      in case listing pg index of
           Click_error \<Rightarrow> s1
         | No_details \<Rightarrow> processed failed
         | Details business_details \<Rightarrow>
             if name business_details \<noteq> []
             then (if phone business_details \<noteq> [] \<or> website business_details \<noteq> []
                      \<or> email business_details \<noteq> []
                   then (let s2 = s1\<lparr>successful_extractions := successful_extractions s1 + 1,
                                      results := results s1 @ [business_details]\<rparr>
                         in processed
                              (emit ((report (index + 1) total_listings (successful_extractions s2)
                                        (Found_lead (name business_details)))
                                     \<lparr>ev_new_lead := Some business_details\<rparr>) s2))
                   else processed
                          (emit (report (index + 1) total_listings (successful_extractions s1)
                                   (No_target_data (name business_details))) s1))
             else processed failed)"

fun extract_loop :: "page \<Rightarrow> nat \<Rightarrow> nat list \<Rightarrow> extract_state \<Rightarrow> extract_state" where
  "extract_loop pg total_listings [] s = s"
| "extract_loop pg total_listings (index # rest) s =
     extract_loop pg total_listings rest (extract_listing pg total_listings index s)"

definition extract_all_listings :: "page \<Rightarrow> nat \<Rightarrow> extract_state" where
  "extract_all_listings pg total_listings =
     extract_loop pg total_listings [0..<total_listings]
       \<lparr>results = [], successful_extractions = 0, emitted = []\<rparr>"

text \<open>
  \<open>scrape_with_progress\<close>: the result (or the exception that leaves it) and the calls of
  the progress callback in order. The callback's return value is never used.
\<close>

definition scrape_with_progress ::
  "page \<Rightarrow> (scrape_error + business_details list) \<times> progress_event list" where
  "scrape_with_progress pg =
     (let evs0 = [report 0 0 0 Navigating]
      in if \<not> goto_ok pg then (Inl Navigation_failed, evs0)
         else let evs1 = evs0 @ [report 0 0 0 Handling_consent, report 0 0 0 Waiting_for_listings]
              in if \<not> listings_found pg then (Inl No_listings, evs1)
                 else let evs2 = evs1 @ [report 0 0 0 Scrolling]
                      in case scroll_and_load pg of
                           (Inl e, sevs) \<Rightarrow> (Inl e, evs2 @ sevs)
                         | (Inr total_listings, sevs) \<Rightarrow>
                             let evs3 = evs2 @ sevs
                                        @ [report 0 total_listings 0 (Starting_extract total_listings)];
                                 s = extract_all_listings pg total_listings
                             in (Inr (results s), evs3 @ emitted s))"


section \<open>Job engine (server.py)\<close>

text \<open>
  An entry of \<open>active_jobs\<close>. The time stamps of the entry and the timing suffix that
  \<open>update_progress_with_lead\<close> appends to the message are telemetry and are left out;
  so is the \<open>ScrapingJob\<close> row, which mirrors the counters.
\<close>

datatype job_status = Running | Cancelled | Completed | Failed

datatype job_message =
    Starting_job
  | Initializing
  | Progress_message scraper_message
  | Cancelled_by_user
  | Completed_message nat
  | Error_message scrape_error

record job =
  status :: job_status
  progress :: nat
  total_listings :: nat
  job_successful :: nat
  message :: job_message
  search_term :: string

text \<open>A row of the \<open>leads\<close> table, with the columns that the callback fills from the item.\<close>

record lead =
  lead_name :: string
  lead_phone :: string
  lead_website :: string
  lead_email :: string
  lead_location :: string

record world =
  active_jobs :: "string \<rightharpoonup> job"
  leads :: "lead list"

text \<open>The entry that \<open>start_scraping\<close> stores before it schedules \<open>run_scraping_job\<close>.\<close>

definition new_job :: "string \<Rightarrow> job" where
  "new_job term =
     \<lparr>status = Running, progress = 0, total_listings = 0, job_successful = 0,
      message = Starting_job, search_term = term\<rparr>"

text \<open>The row \<open>Lead(name=new_lead["name"], phone=..., location=search_term, ...)\<close>.\<close>

definition lead_row :: "string \<Rightarrow> business_details \<Rightarrow> lead" where
  "lead_row term new_lead =
     \<lparr>lead_name = name new_lead, lead_phone = phone new_lead, lead_website = website new_lead,
      lead_email = email new_lead, lead_location = term\<rparr>"

text \<open>
  \<open>update_progress_with_lead\<close>. \<open>commit_ok\<close> tells whether adding and committing the
  row succeeds; a failure is caught, logged and rolled back by the source.
\<close>

definition update_progress_with_lead ::
  "(lead \<Rightarrow> bool) \<Rightarrow> string \<Rightarrow> progress_event \<Rightarrow> world \<Rightarrow> world" where
  "update_progress_with_lead commit_ok job_id ev w =
     (case active_jobs w job_id of
        None \<Rightarrow> w
      | Some j \<Rightarrow>
          if status j = Cancelled then w
          else let j' = j\<lparr>progress := ev_progress ev, total_listings := ev_total ev,
                           job_successful := ev_successful ev,
                           message := Progress_message (ev_message ev)\<rparr>;
                   w1 = w\<lparr>active_jobs := (active_jobs w)(job_id \<mapsto> j')\<rparr>
               in case ev_new_lead ev of
                    None \<Rightarrow> w1
                  | Some new_lead \<Rightarrow>
                      let row = lead_row (search_term j') new_lead
                      in if commit_ok row then w1\<lparr>leads := leads w1 @ [row]\<rparr> else w1)"

text \<open>\<open>cancel_scraping_job\<close> on the in-memory registry (the handler of the DELETE request).\<close>

definition cancel_scraping_job :: "string \<Rightarrow> world \<Rightarrow> world" where
  "cancel_scraping_job job_id w =
     (case active_jobs w job_id of
        None \<Rightarrow> w
      | Some j \<Rightarrow>
          w\<lparr>active_jobs := (active_jobs w)(job_id \<mapsto> j\<lparr>status := Cancelled,
                                                           message := Cancelled_by_user\<rparr>)\<rparr>)"

text \<open>
  The job runs as one task on the event loop; a cancel request is served by another task
  at some point while the scraper awaits the browser. A run is therefore a sequence of
  steps: the callbacks of the scraper in their order, with the cancel request between
  two of them.
\<close>

datatype step = Callback progress_event | Cancel_request

definition apply_step :: "(lead \<Rightarrow> bool) \<Rightarrow> string \<Rightarrow> world \<Rightarrow> step \<Rightarrow> world" where
  "apply_step commit_ok job_id w s =
     (case s of
        Callback ev \<Rightarrow> update_progress_with_lead commit_ok job_id ev w
      | Cancel_request \<Rightarrow> cancel_scraping_job job_id w)"

definition schedule :: "nat option \<Rightarrow> progress_event list \<Rightarrow> step list" where
  "schedule cancel_at evs =
     (case cancel_at of
        None \<Rightarrow> map Callback evs
      | Some n \<Rightarrow> map Callback (take n evs) @ Cancel_request # map Callback (drop n evs))"

definition run_steps :: "(lead \<Rightarrow> bool) \<Rightarrow> string \<Rightarrow> step list \<Rightarrow> world \<Rightarrow> world" where
  "run_steps commit_ok job_id steps w = foldl (apply_step commit_ok job_id) w steps"

definition is_cancelled :: "string \<Rightarrow> world \<Rightarrow> bool" where
  "is_cancelled job_id w =
     (case active_jobs w job_id of None \<Rightarrow> False | Some j \<Rightarrow> status j = Cancelled)"

definition set_job :: "string \<Rightarrow> job_status \<Rightarrow> job_message \<Rightarrow> world \<Rightarrow> world" where
  "set_job job_id st msg w =
     (case active_jobs w job_id of
        None \<Rightarrow> w
      | Some j \<Rightarrow> w\<lparr>active_jobs := (active_jobs w)(job_id \<mapsto> j\<lparr>status := st, message := msg\<rparr>)\<rparr>)"

text \<open>
  \<open>run_scraping_job\<close> for a job that \<open>start_scraping\<close> has registered: mark it running,
  check for cancellation, scrape (the steps above), then either the \<open>except\<close> branch
  (status failed), the return on a cancelled job, or the final status completed.
\<close>

definition run_scraping_job ::
  "(lead \<Rightarrow> bool) \<Rightarrow> string \<Rightarrow> page \<Rightarrow> nat option \<Rightarrow> world \<Rightarrow> world" where
  "run_scraping_job commit_ok job_id pg cancel_at w =
     (let w1 = set_job job_id Running Initializing w
      in if is_cancelled job_id w1 then w1
         else case scrape_with_progress pg of
                (outcome, evs) \<Rightarrow>
                  let w2 = run_steps commit_ok job_id (schedule cancel_at evs) w1
                  in case outcome of
                       Inl e \<Rightarrow> set_job job_id Failed (Error_message e) w2
                     | Inr found \<Rightarrow>
                         if is_cancelled job_id w2 then w2
                         else set_job job_id Completed (Completed_message (length found)) w2)"

text \<open>The worlds that an observer polling the registry can see during the steps.\<close>

fun worlds_seen :: "(lead \<Rightarrow> bool) \<Rightarrow> string \<Rightarrow> step list \<Rightarrow> world \<Rightarrow> world list" where
  "worlds_seen commit_ok job_id [] w = [w]"
| "worlds_seen commit_ok job_id (s # steps) w =
     w # worlds_seen commit_ok job_id steps (apply_step commit_ok job_id w s)"

section \<open>Derived notions and example inputs\<close>

text \<open>
  How the scroll loop ends on a page: the reason and the number of the last iteration,
  \<open>None\<close> when the loop is left by an exception.
\<close>

definition scroll_outcome :: "page \<Rightarrow> (stop_reason \<times> nat) option" where
  "scroll_outcome pg =
     (case fst (scroll_loop pg initial_scroll_state) of
        Inl e \<Rightarrow> None
      | Inr r \<Rightarrow> Some (fst r, last_iteration r))"

text \<open>The number of iterations that were begun: each one reports "Scroll n: Found ...".\<close>

definition iterations_begun :: "progress_event list \<Rightarrow> nat" where
  "iterations_begun evs =
     length (filter (\<lambda>e. case ev_message e of Scroll_found i n \<Rightarrow> True | _ \<Rightarrow> False) evs)"


text \<open>A page on which every iteration finds one more card and the spinner never clears.\<close>

definition growing_page :: page where
  "growing_page =
     \<lparr>goto_ok = True, listings_found = True, card_count = (\<lambda>i. Some (i + 1)),
      spinner_visible = (\<lambda>i. True), spinner_hides = (\<lambda>i. False), final_count = 101,
      listing = (\<lambda>i. No_details)\<rparr>"



text \<open>
  Limiters with a full window: one without failures, one after 1024 consecutive
  failures, one with three.
\<close>

definition idle_limiter :: RateLimiter where
  "idle_limiter =
     \<lparr>config = \<lparr>requests_per_period = 2, period_seconds = 60, burst_size = None,
                 backoff_factor = 2, max_backoff = 300, jitter = False\<rparr>,
      request_times = [50, 70], last_request_time = 70, consecutive_failures = 0\<rparr>"

definition failing_limiter :: RateLimiter where
  "failing_limiter =
     \<lparr>config = \<lparr>requests_per_period = 2, period_seconds = 60, burst_size = None,
                 backoff_factor = 2, max_backoff = 300, jitter = True\<rparr>,
      request_times = [50, 70], last_request_time = 70, consecutive_failures = 1024\<rparr>"

definition example_limiter :: RateLimiter where
  "example_limiter =
     \<lparr>config = \<lparr>requests_per_period = 2, period_seconds = 60, burst_size = None,
                 backoff_factor = 2, max_backoff = 300, jitter = True\<rparr>,
      request_times = [50, 70], last_request_time = 70, consecutive_failures = 3\<rparr>"

section \<open>Items, jobs and example runs\<close>

text \<open>The test of the extraction loop for a contact channel: phone, website or email.\<close>

definition has_contact :: "business_details \<Rightarrow> bool" where
  "has_contact d = (phone d \<noteq> [] \<or> website d \<noteq> [] \<or> email d \<noteq> [])"

text \<open>The callback that hands a new lead over: the "Found lead" message with the item attached.\<close>

definition lead_event :: "nat \<Rightarrow> nat \<Rightarrow> nat \<Rightarrow> business_details \<Rightarrow> progress_event" where
  "lead_event p t s d = (report p t s (Found_lead (name d)))\<lparr>ev_new_lead := Some d\<rparr>"

text \<open>The items that a sequence of callbacks carries as new leads.\<close>

fun forwarded :: "progress_event list \<Rightarrow> business_details list" where
  "forwarded [] = []"
| "forwarded (e # evs) =
     (case ev_new_lead e of None \<Rightarrow> forwarded evs | Some d \<Rightarrow> d # forwarded evs)"

text \<open>The callbacks among the steps of a run, and the number of listings they start.\<close>

fun callbacks :: "step list \<Rightarrow> progress_event list" where
  "callbacks [] = []"
| "callbacks (Callback e # steps) = e # callbacks steps"
| "callbacks (Cancel_request # steps) = callbacks steps"

definition listings_begun :: "progress_event list \<Rightarrow> nat" where
  "listings_begun evs =
     length (filter (\<lambda>e. case ev_message e of Processing_listing i n \<Rightarrow> True | _ \<Rightarrow> False) evs)"

text \<open>The job invariant on the counters of the registry entry.\<close>

definition counters_ok :: "string \<Rightarrow> world \<Rightarrow> bool" where
  "counters_ok job_id w =
     (case active_jobs w job_id of None \<Rightarrow> True | Some j \<Rightarrow> progress j \<le> total_listings j)"

text \<open>The job is registered for the search term and has not been cancelled.\<close>

definition live :: "string \<Rightarrow> string \<Rightarrow> world \<Rightarrow> bool" where
  "live term job_id w =
     (case active_jobs w job_id of
        None \<Rightarrow> False
      | Some j \<Rightarrow> status j \<noteq> Cancelled \<and> search_term j = term)"

text \<open>What a client polling the status sees of a job.\<close>

definition job_view :: "string \<Rightarrow> world \<Rightarrow> (job_status \<times> nat \<times> nat \<times> job_message) option" where
  "job_view job_id w =
     map_option (\<lambda>j. (status j, progress j, total_listings j, message j)) (active_jobs w job_id)"

text \<open>A database that accepts every row.\<close>

definition always_commit :: "lead \<Rightarrow> bool" where
  "always_commit row = True"

text \<open>A registry with one job, as \<open>start_scraping\<close> leaves it, and an empty lead table.\<close>

definition example_world :: world where
  "example_world = \<lparr>active_jobs = [''job-1'' \<mapsto> new_job ''cafes in Leeds''], leads = []\<rparr>"

text \<open>
  Three cards and no spinner. The first item has a name and a phone number, the second
  only a website, the third a name and a website.
\<close>

definition shop_page :: page where
  "shop_page =
     \<lparr>goto_ok = True, listings_found = True, card_count = (\<lambda>i. Some 3),
      spinner_visible = (\<lambda>i. False), spinner_hides = (\<lambda>i. False), final_count = 3,
      listing = (\<lambda>i. if i = 0 then Details \<lparr>name = ''Cafe Uno'', phone = ''0113 496 0000'',
                                              website = [], email = []\<rparr>
                       else if i = 1 then Details \<lparr>name = [], phone = [],
                                              website = ''https://nameless.example'', email = []\<rparr>
                       else Details \<lparr>name = ''Bar Due'', phone = [],
                                              website = ''https://due.example'', email = []\<rparr>)\<rparr>"

text \<open>One card whose only extracted field is the website.\<close>

definition website_only_page :: page where
  "website_only_page =
     \<lparr>goto_ok = True, listings_found = True, card_count = (\<lambda>i. Some 1),
      spinner_visible = (\<lambda>i. False), spinner_hides = (\<lambda>i. False), final_count = 1,
      listing = (\<lambda>i. Details \<lparr>name = [], phone = [], website = ''https://nameless.example'',
                                email = []\<rparr>)\<rparr>"

text \<open>A page on which the fourth read of the card count raises.\<close>

definition crash_page :: page where
  "crash_page =
     \<lparr>goto_ok = True, listings_found = True,
      card_count = (\<lambda>i. if i < 3 then Some 4 else None),
      spinner_visible = (\<lambda>i. False), spinner_hides = (\<lambda>i. False), final_count = 4,
      listing = (\<lambda>i. No_details)\<rparr>"

text \<open>
  A rotator that loaded one valid proxy when it was created, what the source lists
  would answer to a later download, and a probe that only the later proxy passes.
\<close>

definition cached_rotator :: "(nat \<Rightarrow> bool) \<Rightarrow> ProxyRotator" where
  "cached_rotator unicode_digit =
     init_rotator unicode_digit [Some [ascii ''10.0.0.1:8080'', ascii ''not a proxy''], None, None]"

definition fresh_responses :: "pystr list option list" where
  "fresh_responses = [Some [ascii ''10.0.0.2:3128''], None, None]"

definition only_fresh_alive :: "pystr \<Rightarrow> bool" where
  "only_fresh_alive proxy = (proxy = ascii ''http://10.0.0.2:3128'')"

section \<open>The sliding window\<close>

lemma purge_sorted: "sorted ts \<Longrightarrow> purge c ts = filter (\<lambda>t. c \<le> t) ts"
proof (induction ts)
  case Nil
  then show ?case by simp
next
  case (Cons t ts)
  show ?case
  proof (cases "t < c")
    case True
    with Cons show ?thesis by simp
  next
    case False
    with Cons.prems have "\<forall>x\<in>set ts. c \<le> x" by auto
    then have "filter (\<lambda>t. c \<le> t) ts = ts" by (simp add: filter_id_conv)
    with False show ?thesis by simp
  qed
qed

lemma purge_keeps_window: "filter (\<lambda>t. c \<le> t) (purge c ts) = filter (\<lambda>t. c \<le> t) ts"
  by (induction ts) auto

lemma purge_sorted_stays: "sorted ts \<Longrightarrow> sorted (purge c ts)"
  by (induction ts) auto

lemma purge_window_le: "length (filter (\<lambda>t. c \<le> t) ts) \<le> length (purge c ts)"
proof -
  have "length (filter (\<lambda>t. c \<le> t) ts) = length (filter (\<lambda>t. c \<le> t) (purge c ts))"
    by (simp add: purge_keeps_window)
  then show ?thesis by (simp add: length_filter_le)
qed

lemma purge_all_old: "filter (\<lambda>t. c \<le> t) ts = [] \<Longrightarrow> purge c ts = []"
  by (induction ts) (auto split: if_splits)

text \<open>
  Claim C3. \<open>can_make_request\<close> first runs the purge and then answers True iff the
  number of time stamps that remain is below \<open>requests_per_period\<close>. The purge never
  drops a time stamp of the window, and on a window whose time stamps are in the order
  of their arrival it drops every older one, so that exactly the time stamps not older
  than \<open>now - period_seconds\<close> remain. The answer is False when the number of time
  stamps in the window equals the quota, and True when the window is empty and the
  quota is positive.
\<close>

theorem can_make_request_window:
  "fst (can_make_request now rl)
     = (int (length (request_times (snd (can_make_request now rl)))) < requests_per_period (config rl))
   \<and> in_window now (snd (can_make_request now rl)) = in_window now rl
   \<and> (sorted (request_times rl)
        \<longrightarrow> request_times (snd (can_make_request now rl)) = in_window now rl
            \<and> list_all (\<lambda>t. \<not> t < now - real_of_int (period_seconds (config rl)))
                 (request_times (snd (can_make_request now rl)))
            \<and> fst (can_make_request now rl)
                = (int (length (in_window now rl)) < requests_per_period (config rl)))
   \<and> (int (length (in_window now rl)) = requests_per_period (config rl)
        \<longrightarrow> \<not> fst (can_make_request now rl))
   \<and> (in_window now rl = [] \<and> 0 < requests_per_period (config rl)
        \<longrightarrow> fst (can_make_request now rl))"
proof -
  let ?c = "now - real_of_int (period_seconds (config rl))"
  have a: "fst (can_make_request now rl)
     = (int (length (request_times (snd (can_make_request now rl)))) < requests_per_period (config rl))"
    by (simp add: can_make_request_def Let_def)
  have b: "in_window now (snd (can_make_request now rl)) = in_window now rl"
    by (simp add: can_make_request_def Let_def in_window_def purge_keeps_window)
  have c: "request_times (snd (can_make_request now rl)) = in_window now rl
            \<and> list_all (\<lambda>t. \<not> t < ?c) (request_times (snd (can_make_request now rl)))
            \<and> fst (can_make_request now rl)
                = (int (length (in_window now rl)) < requests_per_period (config rl))"
    if "sorted (request_times rl)"
    using that
    by (auto simp: can_make_request_def Let_def in_window_def purge_sorted list_all_iff)
  have d: "\<not> fst (can_make_request now rl)"
    if "int (length (in_window now rl)) = requests_per_period (config rl)"
    using that purge_window_le [of ?c "request_times rl"]
    by (simp add: can_make_request_def Let_def in_window_def)
  have e: "fst (can_make_request now rl)"
    if "in_window now rl = [] \<and> 0 < requests_per_period (config rl)"
    using that purge_all_old [of ?c "request_times rl"]
    by (simp add: can_make_request_def Let_def in_window_def)
  from a b c d e show ?thesis by blast
qed

theorem can_make_request_window_witness:
  "sorted (request_times example_limiter)
   \<and> int (length (in_window 100 example_limiter)) = requests_per_period (config example_limiter)
   \<and> \<not> fst (can_make_request 100 example_limiter)
   \<and> in_window 200 example_limiter = [] \<and> 0 < requests_per_period (config example_limiter)
   \<and> fst (can_make_request 200 example_limiter)
   \<and> request_times (snd (can_make_request 115 example_limiter)) = [70]"
proof -
  have h1: "sorted (request_times example_limiter)"
    by (simp add: example_limiter_def)
  have h2: "int (length (in_window 100 example_limiter))
              = requests_per_period (config example_limiter)"
    by (simp add: example_limiter_def in_window_def)
  have h3: "in_window 200 example_limiter = [] \<and> 0 < requests_per_period (config example_limiter)"
    by (simp add: example_limiter_def in_window_def)
  have h4: "in_window 115 example_limiter = [70]"
    by (simp add: example_limiter_def in_window_def)
  from can_make_request_window [of 100 example_limiter] h2
  have r1: "\<not> fst (can_make_request 100 example_limiter)" by blast
  from can_make_request_window [of 200 example_limiter] h3
  have r2: "fst (can_make_request 200 example_limiter)" by blast
  from can_make_request_window [of 115 example_limiter] h1 h4
  have r3: "request_times (snd (can_make_request 115 example_limiter)) = [70]" by simp
  from h1 h2 h3 r1 r2 r3 show ?thesis by blast
qed

text \<open>\<open>record_request\<close> keeps the order when the clock does not run backwards.\<close>

lemma record_request_sorted:
  "sorted (request_times rl) \<Longrightarrow> \<forall>t \<in> set (request_times rl). t \<le> now
     \<Longrightarrow> sorted (request_times (record_request now ok rl))"
  by (simp add: record_request_def Let_def sorted_append)

section \<open>Delay and backoff\<close>

lemma purge_head: "purge c ts = t # rest \<Longrightarrow> c \<le> t"
  by (induction ts) (auto split: if_splits)

lemma backoff_in_range:
  "\<bar>backoff_factor cfg ^ n\<bar> < 2 ^ 1024
     \<Longrightarrow> backoff cfg n = Inr (min (backoff_factor cfg ^ n) (max_backoff cfg))"
  by (simp add: backoff_def float_pow_def)

lemma backoff_overflow:
  "2 ^ 1024 \<le> \<bar>backoff_factor cfg ^ n\<bar> \<Longrightarrow> backoff cfg n = Inl OverflowError"
  by (simp add: backoff_def float_pow_def)

lemma capped_mono:
  fixes f m :: real
  assumes "1 \<le> f"
  shows "min (f ^ n) m \<le> min (f ^ Suc n) m"
proof -
  from assms have "f ^ n \<le> f ^ Suc n"
    by (intro power_increasing) auto
  then show ?thesis by (auto simp: min_def)
qed

lemma capped_strict:
  fixes f m :: real
  assumes "1 < f" and "min (f ^ n) m < m"
  shows "min (f ^ n) m < min (f ^ Suc n) m"
proof -
  from assms(2) have eq: "min (f ^ n) m = f ^ n"
    by (auto simp: min_def split: if_splits)
  from assms(1) have "f ^ n < f ^ Suc n"
    by (intro power_strict_increasing) auto
  with eq assms(2) show ?thesis by simp
qed

lemma power_below:
  fixes f :: real
  assumes "1 < f" and "f ^ Suc n < b"
  shows "\<bar>f ^ n\<bar> < b \<and> \<bar>f ^ Suc n\<bar> < b"
proof -
  from assms(1) have "f ^ n < f ^ Suc n"
    by (intro power_strict_increasing) auto
  moreover from assms(1) have "0 \<le> f ^ n" "0 \<le> f ^ Suc n" by simp_all
  ultimately show ?thesis using assms(2) by simp
qed

lemma record_failures_snoc:
  "record_failures (nows @ [t]) rl = record_request t False (record_failures nows rl)"
  by (simp add: record_failures_def)

lemma record_failures_count:
  "consecutive_failures (record_failures nows rl) = consecutive_failures rl + length nows
   \<and> config (record_failures nows rl) = config rl"
proof (induction nows rule: rev_induct)
  case Nil
  then show ?case by (simp add: record_failures_def)
next
  case (snoc t nows)
  then show ?case by (simp add: record_failures_snoc record_request_def Let_def)
qed

lemma record_success_resets: "consecutive_failures (record_request now True rl) = 0"
  by (simp add: record_request_def Let_def)

lemma get_delay_full:
  assumes full: "\<not> fst (can_make_request now1 rl)"
      and quota: "0 < requests_per_period (config rl)"
      and u: "0 \<le> u" "u \<le> 1"
      and range: "\<bar>backoff_factor (config rl) ^ consecutive_failures rl\<bar> < 2 ^ 1024"
  shows "\<exists>oldest rest base j.
           request_times (snd (can_make_request now1 rl)) = oldest # rest
         \<and> base = (let wait = oldest + real_of_int (period_seconds (config rl)) - now2
                   in if 0 < consecutive_failures rl
                      then max wait (min (backoff_factor (config rl) ^ consecutive_failures rl)
                                         (max_backoff (config rl)))
                      else wait)
         \<and> j = (if jitter (config rl) then u * (base / 10) else 0)
         \<and> fst (get_delay now1 now2 u rl) = Inr (max 0 (base + j))
         \<and> (0 \<le> base \<longrightarrow> 0 \<le> j \<and> j \<le> base / 10)
         \<and> (now2 = now1 \<longrightarrow> 0 \<le> base)"
proof -
  let ?rl' = "snd (can_make_request now1 rl)"
  let ?p = "real_of_int (period_seconds (config rl))"
  let ?b = "min (backoff_factor (config rl) ^ consecutive_failures rl) (max_backoff (config rl))"
  from full quota have "request_times ?rl' \<noteq> []"
    by (auto simp: can_make_request_def Let_def)
  then obtain oldest rest where ts: "request_times ?rl' = oldest # rest"
    by (cases "request_times ?rl'") auto
  then have pg: "purge (now1 - ?p) (request_times rl) = oldest # rest"
    by (simp add: can_make_request_def Let_def)
  have hd: "now1 - ?p \<le> oldest" using purge_head [OF pg] .
  define wait where "wait = oldest + ?p - now2"
  define base where "base = (if 0 < consecutive_failures rl then max wait ?b else wait)"
  define j where "j = (if jitter (config rl) then u * (base / 10) else 0)"
  have bo: "backoff (config rl) (consecutive_failures rl) = Inr ?b"
    using range by (rule backoff_in_range)
  have res: "fst (get_delay now1 now2 u rl) = Inr (max 0 (base + j))"
    using full pg bo
    by (simp add: get_delay_def can_make_request_def Let_def base_def wait_def j_def uniform_def
             mult.commute split: prod.splits)
  have jb: "0 \<le> base \<longrightarrow> 0 \<le> j \<and> j \<le> base / 10"
  proof
    assume b: "0 \<le> base"
    have "0 \<le> u * (base / 10)" using b u by simp
    moreover have "u * (base / 10) \<le> 1 * (base / 10)"
      using b u by (intro mult_right_mono) auto
    ultimately show "0 \<le> j \<and> j \<le> base / 10"
      using b by (auto simp: j_def)
  qed
  have same: "now2 = now1 \<longrightarrow> 0 \<le> base"
    using hd by (auto simp: base_def wait_def max_def)
  show ?thesis
    using ts res jb same unfolding base_def wait_def j_def Let_def by blast
qed

text \<open>
  Claim C4 as stated fails without failures: the backoff term is computed only when
  \<open>consecutive_failures > 0\<close>. With a full window, no failure and half a second of
  window wait the delay is that half second, where the larger of the window wait and
  \<open>min (backoff_factor ^ 0) max_backoff\<close> is one second.
\<close>

theorem backoff_skipped_without_failures:
  "fst (get_delay (219 / 2) (219 / 2) 0 idle_limiter) = Inr (1 / 2)
   \<and> max (1 / 2) (min (backoff_factor (config idle_limiter) ^ consecutive_failures idle_limiter)
                      (max_backoff (config idle_limiter))) = 1"
  by (simp add: get_delay_def can_make_request_def idle_limiter_def uniform_def)

text \<open>
  The power is evaluated before \<open>min\<close>: after 1024 consecutive failures at factor 2
  \<open>get_delay\<close> raises OverflowError instead of returning the capped delay.
\<close>

lemma get_delay_overflow:
  "fst (get_delay 100 100 (1 / 2) failing_limiter) = Inl OverflowError"
  by (simp add: get_delay_def can_make_request_def failing_limiter_def backoff_def float_pow_def)

text \<open>
  Claim C4, amended. With a full window, \<open>get_delay\<close> returns the window wait when
  there is no failure, and the larger of the window wait and
  \<open>min (backoff_factor ^ consecutive_failures) max_backoff\<close> when there are failures
  and the power is in the range of a float; in both cases plus the jitter, which is
  \<open>random() * delay / 10\<close>, between 0 and a tenth of that delay. \<open>N\<close> failed requests
  add \<open>N\<close> to the failure count; for a factor above 1 the backoff grows strictly with
  the count until it equals \<open>max_backoff\<close>, which it never exceeds; one successful
  request sets the count to zero.
\<close>

theorem get_delay_backoff:
  assumes full: "\<not> fst (can_make_request now1 rl)"
      and quota: "0 < requests_per_period (config rl)"
      and u: "0 \<le> u" "u \<le> 1"
      and factor: "1 < backoff_factor (config rl)"
      and range: "backoff_factor (config rl) ^ consecutive_failures rl < 2 ^ 1024"
  shows "(\<exists>oldest rest base j.
           request_times (snd (can_make_request now1 rl)) = oldest # rest
         \<and> base = (let wait = oldest + real_of_int (period_seconds (config rl)) - now2
                   in if 0 < consecutive_failures rl
                      then max wait (min (backoff_factor (config rl) ^ consecutive_failures rl)
                                         (max_backoff (config rl)))
                      else wait)
         \<and> j = (if jitter (config rl) then u * (base / 10) else 0)
         \<and> fst (get_delay now1 now2 u rl) = Inr (max 0 (base + j))
         \<and> (0 \<le> base \<longrightarrow> 0 \<le> j \<and> j \<le> base / 10)
         \<and> (now2 = now1 \<longrightarrow> 0 \<le> base))
       \<and> consecutive_failures (record_failures nows rl) = consecutive_failures rl + length nows
       \<and> (\<forall>n. backoff_factor (config rl) ^ Suc n < 2 ^ 1024
             \<longrightarrow> backoff (config rl) n
                   = Inr (min (backoff_factor (config rl) ^ n) (max_backoff (config rl)))
               \<and> backoff (config rl) (Suc n)
                   = Inr (min (backoff_factor (config rl) ^ Suc n) (max_backoff (config rl)))
               \<and> min (backoff_factor (config rl) ^ n) (max_backoff (config rl))
                   \<le> min (backoff_factor (config rl) ^ Suc n) (max_backoff (config rl))
               \<and> min (backoff_factor (config rl) ^ Suc n) (max_backoff (config rl))
                   \<le> max_backoff (config rl)
               \<and> (min (backoff_factor (config rl) ^ n) (max_backoff (config rl))
                     < max_backoff (config rl)
                    \<longrightarrow> min (backoff_factor (config rl) ^ n) (max_backoff (config rl))
                         < min (backoff_factor (config rl) ^ Suc n) (max_backoff (config rl))))
       \<and> (\<forall>n. backoff_factor (config rl) ^ n < 2 ^ 1024
                \<and> max_backoff (config rl) \<le> backoff_factor (config rl) ^ n
             \<longrightarrow> backoff (config rl) n = Inr (max_backoff (config rl)))
       \<and> consecutive_failures (record_request now True (record_failures nows rl)) = 0"
proof -
  let ?f = "backoff_factor (config rl)"
  let ?m = "max_backoff (config rl)"
  have pos: "0 \<le> ?f ^ n" for n using factor by simp
  have r: "\<bar>?f ^ consecutive_failures rl\<bar> < 2 ^ 1024"
    using range pos [of "consecutive_failures rl"] by simp
  have mono: "backoff (config rl) n = Inr (min (?f ^ n) ?m)
               \<and> backoff (config rl) (Suc n) = Inr (min (?f ^ Suc n) ?m)
               \<and> min (?f ^ n) ?m \<le> min (?f ^ Suc n) ?m
               \<and> min (?f ^ Suc n) ?m \<le> ?m
               \<and> (min (?f ^ n) ?m < ?m \<longrightarrow> min (?f ^ n) ?m < min (?f ^ Suc n) ?m)"
    if "?f ^ Suc n < 2 ^ 1024" for n
  proof -
    from power_below [OF factor that]
    have r0: "\<bar>?f ^ n\<bar> < 2 ^ 1024" and r1: "\<bar>?f ^ Suc n\<bar> < 2 ^ 1024" by blast+
    have "backoff (config rl) n = Inr (min (?f ^ n) ?m)"
      using r0 by (rule backoff_in_range)
    moreover have "backoff (config rl) (Suc n) = Inr (min (?f ^ Suc n) ?m)"
      using r1 by (rule backoff_in_range)
    moreover have "min (?f ^ n) ?m \<le> min (?f ^ Suc n) ?m"
      using factor by (intro capped_mono) simp
    moreover have "min (?f ^ Suc n) ?m \<le> ?m" by simp
    moreover have "min (?f ^ n) ?m < ?m \<longrightarrow> min (?f ^ n) ?m < min (?f ^ Suc n) ?m"
      using capped_strict [OF factor] by blast
    ultimately show ?thesis by blast
  qed
  have cap: "backoff (config rl) n = Inr ?m" if "?f ^ n < 2 ^ 1024 \<and> ?m \<le> ?f ^ n" for n
  proof -
    from that pos [of n] have "\<bar>?f ^ n\<bar> < 2 ^ 1024" by simp
    then have "backoff (config rl) n = Inr (min (?f ^ n) ?m)" by (rule backoff_in_range)
    with that show ?thesis by (simp add: min_def)
  qed
  show ?thesis
    using get_delay_full [OF full quota u r, of now2] record_failures_count [of nows rl]
      mono cap record_success_resets [of now "record_failures nows rl"]
    by blast
qed

theorem get_delay_backoff_witness:
  "\<not> fst (can_make_request 105 example_limiter)
   \<and> fst (get_delay 105 105 (1 / 2) example_limiter) = Inr (42 / 5)
   \<and> backoff (config example_limiter) 3 = Inr 8
   \<and> backoff (config example_limiter) 4 = Inr 16
   \<and> backoff (config example_limiter) 9 = Inr 300
   \<and> consecutive_failures (record_failures [101, 102] example_limiter) = 5
   \<and> consecutive_failures (record_request 103 True (record_failures [101, 102] example_limiter)) = 0"
proof -
  have h1: "\<not> fst (can_make_request 105 example_limiter)"
    by (simp add: can_make_request_def example_limiter_def)
  have h2: "0 < requests_per_period (config example_limiter)"
    by (simp add: example_limiter_def)
  have h3: "(0::real) \<le> 1 / 2" and h4: "(1::real) / 2 \<le> 1" by simp_all
  have h5: "1 < backoff_factor (config example_limiter)"
    by (simp add: example_limiter_def)
  have h6: "backoff_factor (config example_limiter) ^ consecutive_failures example_limiter
              < 2 ^ 1024"
    by (simp add: example_limiter_def)
  have ts: "request_times (snd (can_make_request 105 example_limiter)) = [50, 70]"
    by (simp add: can_make_request_def example_limiter_def)
  note t = get_delay_backoff [OF h1 h2 h3 h4 h5 h6, of 105 "[101, 102]" 103]
  from t ts have d: "fst (get_delay 105 105 (1 / 2) example_limiter) = Inr (42 / 5)"
    by (auto simp: example_limiter_def Let_def)
  have r4: "backoff_factor (config example_limiter) ^ Suc 3 < 2 ^ 1024"
    by (simp add: example_limiter_def)
  from t r4 have b3: "backoff (config example_limiter) 3
                        = Inr (min (backoff_factor (config example_limiter) ^ 3)
                                   (max_backoff (config example_limiter)))"
    and b4: "backoff (config example_limiter) (Suc 3)
                        = Inr (min (backoff_factor (config example_limiter) ^ Suc 3)
                                   (max_backoff (config example_limiter)))"
    by blast+
  have r9: "backoff_factor (config example_limiter) ^ 9 < 2 ^ 1024
            \<and> max_backoff (config example_limiter) \<le> backoff_factor (config example_limiter) ^ 9"
    by (simp add: example_limiter_def)
  from t r9 have b9: "backoff (config example_limiter) 9 = Inr (max_backoff (config example_limiter))"
    by blast
  from t have c: "consecutive_failures (record_failures [101, 102] example_limiter)
                    = consecutive_failures example_limiter + length [101, 102 :: real]"
    by blast
  from t have r: "consecutive_failures
                    (record_request 103 True (record_failures [101, 102] example_limiter)) = 0"
    by blast
  have "backoff (config example_limiter) 3 = Inr 8"
    using b3 by (simp add: example_limiter_def)
  moreover have "backoff (config example_limiter) 4 = Inr 16"
    using b4 by (simp add: example_limiter_def)
  moreover have "backoff (config example_limiter) 9 = Inr 300"
    using b9 by (simp add: example_limiter_def)
  moreover have "consecutive_failures (record_failures [101, 102] example_limiter) = 5"
    using c by (simp add: example_limiter_def)
  ultimately show ?thesis using h1 d r by blast
qed

section \<open>The scroll loop\<close>













text \<open>
  Claim C1. On the page that grows at every iteration and whose spinner never clears,
  the loop is left by the safety check only after 101 iterations and 101 scrolls: the
  check \<open>scrolls > 100\<close> comes after the increment.
\<close>

theorem scroll_limit_overrun:
  "fst (scroll_loop growing_page initial_scroll_state)
     = Inr (Scroll_limit, \<lparr>previous_count = 101, same_count_repeats = 0,
                           consecutive_no_new_results = 0, scrolls = 101\<rparr>)
   \<and> scroll_outcome growing_page = Some (Scroll_limit, 101)
   \<and> iterations_begun (snd (scroll_loop growing_page initial_scroll_state)) = 101"
  by code_simp






section \<open>The callbacks of a scrape\<close>

text \<open>
  Every callback of a scrape has one of three shapes: progress 0 before the extraction,
  progress \<open>i + 1\<close> of \<open>n\<close> for a listing \<open>i < n\<close>, or such a callback with a named
  item that has a contact channel attached.
\<close>

lemma scroll_loop_snd_continue:
  "scroll_iteration pg st = (Continue st', evs)
     \<Longrightarrow> snd (scroll_loop pg st) = evs @ snd (scroll_loop pg st')"
  by (subst scroll_loop.simps) (simp split: prod.splits)

lemma scroll_loop_snd_break:
  "scroll_iteration pg st = (Break r st', evs) \<Longrightarrow> snd (scroll_loop pg st) = evs"
  by (subst scroll_loop.simps) simp

lemma scroll_loop_snd_raise:
  "scroll_iteration pg st = (Raise e, evs) \<Longrightarrow> snd (scroll_loop pg st) = evs"
  by (subst scroll_loop.simps) simp

lemma scroll_iteration_events:
  assumes "\<And>n m. P (report 0 n 0 m)"
  shows "list_all P (snd (scroll_iteration pg st))"
  using assms
  by (auto simp: scroll_iteration_def Let_def split: option.splits)

lemma scroll_loop_events:
  assumes P: "\<And>n m. P (report 0 n 0 m)"
  shows "list_all P (snd (scroll_loop pg st))"
proof (induction pg st rule: scroll_loop.induct)
  case (1 pg st)
  obtain it evs where it: "scroll_iteration pg st = (it, evs)" by (cases "scroll_iteration pg st")
  have evs: "list_all P evs" using scroll_iteration_events [of P pg st] P it by simp
  show ?case
  proof (cases it)
    case (Raise e)
    with it evs show ?thesis by (simp add: scroll_loop_snd_raise)
  next
    case (Break r st')
    with it evs show ?thesis by (simp add: scroll_loop_snd_break)
  next
    case (Continue st')
    with it have "snd (scroll_loop pg st) = evs @ snd (scroll_loop pg st')"
      by (simp add: scroll_loop_snd_continue)
    moreover have "list_all P (snd (scroll_loop pg st'))"
      using "1.IH" [of it evs st'] it Continue by simp
    ultimately show ?thesis using evs by simp
  qed
qed

lemma scroll_and_load_events:
  assumes P: "\<And>n m. P (report 0 n 0 m)"
  shows "list_all P (snd (scroll_and_load pg))"
proof -
  have "snd (scroll_and_load pg) = snd (scroll_loop pg initial_scroll_state)"
    by (simp add: scroll_and_load_def split: prod.splits sum.splits)
  then show ?thesis using scroll_loop_events [of P] P by simp
qed

lemma extract_listing_events:
  assumes P: "\<And>s m. P (report (index + 1) tot s m)"
      and L: "\<And>s d. name d \<noteq> [] \<Longrightarrow> has_contact d \<Longrightarrow> listing pg index = Details d
                 \<Longrightarrow> P (lead_event (index + 1) tot s d)"
      and old: "list_all P (emitted s)"
  shows "list_all P (emitted (extract_listing pg tot index s))"
  using P old L
  by (cases "listing pg index")
     (auto simp: extract_listing_def emit_def Let_def has_contact_def lead_event_def)

lemma extract_loop_events:
  assumes P: "\<And>i s m. i < tot \<Longrightarrow> P (report (i + 1) tot s m)"
      and L: "\<And>i s d. i < tot \<Longrightarrow> name d \<noteq> [] \<Longrightarrow> has_contact d \<Longrightarrow> listing pg i = Details d
                 \<Longrightarrow> P (lead_event (i + 1) tot s d)"
  shows "\<forall>i \<in> set is. i < tot \<Longrightarrow> list_all P (emitted s)
           \<Longrightarrow> list_all P (emitted (extract_loop pg tot is s))"
proof (induction "is" arbitrary: s)
  case Nil
  then show ?case by simp
next
  case (Cons i "is")
  have "list_all P (emitted (extract_listing pg tot i s))"
    using Cons.prems P [of i] L [of i] by (intro extract_listing_events) auto
  with Cons show ?case by simp
qed

lemma extract_all_events:
  assumes P: "\<And>i s m. i < tot \<Longrightarrow> P (report (i + 1) tot s m)"
      and L: "\<And>i s d. i < tot \<Longrightarrow> name d \<noteq> [] \<Longrightarrow> has_contact d \<Longrightarrow> listing pg i = Details d
                 \<Longrightarrow> P (lead_event (i + 1) tot s d)"
  shows "list_all P (emitted (extract_all_listings pg tot))"
  unfolding extract_all_listings_def
  using P L by (intro extract_loop_events) auto

lemma scrape_events:
  assumes Z: "\<And>n m. P (report 0 n 0 m)"
      and P: "\<And>i n s m. i < n \<Longrightarrow> P (report (i + 1) n s m)"
      and L: "\<And>i n s d. i < n \<Longrightarrow> name d \<noteq> [] \<Longrightarrow> has_contact d \<Longrightarrow> listing pg i = Details d
                 \<Longrightarrow> P (lead_event (i + 1) n s d)"
  shows "list_all P (snd (scrape_with_progress pg))"
proof -
  have s: "list_all P (snd (scroll_and_load pg))" using scroll_and_load_events [of P] Z by simp
  have x: "list_all P (emitted (extract_all_listings pg n))" for n
    using P L by (intro extract_all_events) auto
  show ?thesis
    using s x Z by (auto simp: scrape_with_progress_def Let_def split: prod.splits sum.splits)
qed

lemma scrape_progress_le_total:
  "list_all (\<lambda>e. ev_progress e \<le> ev_total e) (snd (scrape_with_progress pg))"
  by (rule scrape_events) (simp_all add: report_def lead_event_def)

lemma scrape_named_leads:
  "list_all (\<lambda>e. case ev_new_lead e of None \<Rightarrow> True | Some d \<Rightarrow> name d \<noteq> [] \<and> has_contact d)
     (snd (scrape_with_progress pg))"
  by (rule scrape_events) (simp_all add: report_def lead_event_def)

lemma forwarded_all:
  "list_all (\<lambda>e. case ev_new_lead e of None \<Rightarrow> True | Some d \<Rightarrow> R d) evs
     \<Longrightarrow> list_all R (forwarded evs)"
  by (induction evs) (auto split: option.splits)

lemma forwarded_mem:
  "d \<in> set (forwarded evs) \<longleftrightarrow> (\<exists>e \<in> set evs. ev_new_lead e = Some d)"
  by (induction evs) (auto split: option.splits)

lemma scrape_forwarded:
  "list_all (\<lambda>d. name d \<noteq> [] \<and> has_contact d) (forwarded (snd (scrape_with_progress pg)))"
  using scrape_named_leads [of pg] by (rule forwarded_all)

section \<open>The extraction loop\<close>

lemma extract_loop_keeps:
  assumes "\<And>j s. Q s \<Longrightarrow> Q (extract_listing pg n j s)"
  shows "Q s \<Longrightarrow> Q (extract_loop pg n is s)"
  using assms by (induction "is" arbitrary: s) simp_all

lemma extract_loop_reaches:
  assumes step: "\<And>s. Q (extract_listing pg n i s)"
      and keep: "\<And>j s. Q s \<Longrightarrow> Q (extract_listing pg n j s)"
  shows "i \<in> set is \<Longrightarrow> Q (extract_loop pg n is s)"
proof (induction "is" arbitrary: s)
  case Nil
  then show ?case by simp
next
  case (Cons j "is")
  show ?case
  proof (cases "j = i")
    case True
    have "Q (extract_listing pg n i s)" by (rule step)
    then have "Q (extract_loop pg n is (extract_listing pg n i s))"
      using keep by (rule extract_loop_keeps [rotated])
    with True show ?thesis by simp
  next
    case False
    with Cons show ?thesis by simp
  qed
qed

lemma extract_listing_grows:
  "\<exists>new. emitted (extract_listing pg n j s) = emitted s @ new"
  by (cases "listing pg j") (auto simp: extract_listing_def emit_def Let_def)

lemma extract_listing_results_grow:
  "\<exists>new. results (extract_listing pg n j s) = results s @ new"
  by (cases "listing pg j") (auto simp: extract_listing_def emit_def Let_def)

lemma extract_listing_keeps_event:
  "e \<in> set (emitted s) \<Longrightarrow> e \<in> set (emitted (extract_listing pg n j s))"
  using extract_listing_grows [of pg n j s] by auto

lemma extract_listing_keeps_result:
  "d \<in> set (results s) \<Longrightarrow> d \<in> set (results (extract_listing pg n j s))"
  using extract_listing_results_grow [of pg n j s] by auto

lemma extract_listing_results:
  "list_all R (results s) \<Longrightarrow> (\<And>d. name d \<noteq> [] \<Longrightarrow> has_contact d \<Longrightarrow> R d)
     \<Longrightarrow> list_all R (results (extract_listing pg n j s))"
  by (cases "listing pg j") (auto simp: extract_listing_def emit_def Let_def has_contact_def)

lemma extract_all_results:
  assumes "\<And>d. name d \<noteq> [] \<Longrightarrow> has_contact d \<Longrightarrow> R d"
  shows "list_all R (results (extract_all_listings pg n))"
  unfolding extract_all_listings_def
  by (rule extract_loop_keeps [where Q = "\<lambda>s. list_all R (results s)"])
     (simp_all add: extract_listing_results assms)

lemma nameless_is_processed:
  assumes "listing pg i = Details d" and "name d = []"
  shows "\<exists>k. report (i + 1) n k (Processed (i + 1) n) \<in> set (emitted (extract_listing pg n i s))"
  using assms by (auto simp: extract_listing_def emit_def Let_def)

lemma nameless_is_processed_loop:
  assumes "listing pg i = Details d" and "name d = []" and "i < n"
  shows "\<exists>k. report (i + 1) n k (Processed (i + 1) n)
              \<in> set (emitted (extract_all_listings pg n))"
  unfolding extract_all_listings_def
proof (rule extract_loop_reaches [where i = i and
        Q = "\<lambda>s. \<exists>k. report (i + 1) n k (Processed (i + 1) n) \<in> set (emitted s)"])
  show "\<exists>k. report (i + 1) n k (Processed (i + 1) n) \<in> set (emitted (extract_listing pg n i s))"
    for s using assms(1,2) by (rule nameless_is_processed)
  show "\<exists>k. report (i + 1) n k (Processed (i + 1) n) \<in> set (emitted (extract_listing pg n j s))"
    if "\<exists>k. report (i + 1) n k (Processed (i + 1) n) \<in> set (emitted s)" for j s
    using that extract_listing_keeps_event by blast
  show "i \<in> set [0..<n]" using assms(3) by simp
qed

lemma lead_is_forwarded:
  assumes "listing pg i = Details d" and "name d \<noteq> []" and "has_contact d"
  shows "(\<exists>k. lead_event (i + 1) n k d \<in> set (emitted (extract_listing pg n i s)))
       \<and> d \<in> set (results (extract_listing pg n i s))"
  using assms by (auto simp: extract_listing_def emit_def Let_def lead_event_def has_contact_def)

lemma lead_is_forwarded_loop:
  assumes "listing pg i = Details d" and "name d \<noteq> []" and "has_contact d" and "i < n"
  shows "(\<exists>k. lead_event (i + 1) n k d \<in> set (emitted (extract_all_listings pg n)))
       \<and> d \<in> set (results (extract_all_listings pg n))"
  unfolding extract_all_listings_def
proof (rule extract_loop_reaches [where i = i and
        Q = "\<lambda>s. (\<exists>k. lead_event (i + 1) n k d \<in> set (emitted s)) \<and> d \<in> set (results s)"])
  show "(\<exists>k. lead_event (i + 1) n k d \<in> set (emitted (extract_listing pg n i s)))
          \<and> d \<in> set (results (extract_listing pg n i s))" for s
    using assms(1,2,3) by (rule lead_is_forwarded)
  show "(\<exists>k. lead_event (i + 1) n k d \<in> set (emitted (extract_listing pg n j s)))
          \<and> d \<in> set (results (extract_listing pg n j s))"
    if "(\<exists>k. lead_event (i + 1) n k d \<in> set (emitted s)) \<and> d \<in> set (results s)" for j s
    using that extract_listing_keeps_event extract_listing_keeps_result by blast
  show "i \<in> set [0..<n]" using assms(4) by simp
qed

lemma scrape_reaches_extraction:
  assumes "goto_ok pg" and "listings_found pg" and "fst (scroll_and_load pg) = Inr n"
  shows "fst (scrape_with_progress pg) = Inr (results (extract_all_listings pg n))
       \<and> set (emitted (extract_all_listings pg n)) \<subseteq> set (snd (scrape_with_progress pg))"
  using assms
  by (cases "scroll_and_load pg") (auto simp: scrape_with_progress_def Let_def)

lemma scrape_results:
  assumes "\<And>d. name d \<noteq> [] \<Longrightarrow> has_contact d \<Longrightarrow> R d"
  shows "case fst (scrape_with_progress pg) of Inl e \<Rightarrow> True | Inr found \<Rightarrow> list_all R found"
  using extract_all_results [of R pg, OF assms]
  by (auto simp: scrape_with_progress_def Let_def split: prod.splits sum.splits)

lemma shop_scroll: "fst (scroll_and_load shop_page) = Inr 3"
  by code_simp

section \<open>The registry under callbacks and cancellation\<close>

lemma update_cancelled:
  "is_cancelled job_id w \<Longrightarrow> update_progress_with_lead commit_ok job_id ev w = w"
  by (auto simp: is_cancelled_def update_progress_with_lead_def split: option.splits)

lemma run_steps_append:
  "run_steps commit_ok job_id (a @ b) w = run_steps commit_ok job_id b (run_steps commit_ok job_id a w)"
  by (simp add: run_steps_def)

lemma run_steps_Cons:
  "run_steps commit_ok job_id (s # steps) w
     = run_steps commit_ok job_id steps (apply_step commit_ok job_id w s)"
  by (simp add: run_steps_def)

lemma run_steps_Nil: "run_steps commit_ok job_id [] w = w"
  by (simp add: run_steps_def)

lemma run_steps_cancelled:
  "is_cancelled job_id w \<Longrightarrow> run_steps commit_ok job_id (map Callback evs) w = w"
  by (induction evs) (simp_all add: run_steps_Nil run_steps_Cons apply_step_def update_cancelled)

lemma worlds_seen_cancelled:
  "is_cancelled job_id w
     \<Longrightarrow> list_all (\<lambda>w'. w' = w) (worlds_seen commit_ok job_id (map Callback evs) w)"
  by (induction evs) (simp_all add: apply_step_def update_cancelled)

lemma registered_update:
  "active_jobs w job_id \<noteq> None
     \<Longrightarrow> active_jobs (update_progress_with_lead commit_ok job_id ev w) job_id \<noteq> None"
  by (auto simp: update_progress_with_lead_def Let_def split: option.splits)

lemma registered_cancel:
  "active_jobs w job_id \<noteq> None \<Longrightarrow> active_jobs (cancel_scraping_job job_id w) job_id \<noteq> None"
  by (auto simp: cancel_scraping_job_def split: option.splits)

lemma registered_set_job:
  "active_jobs w job_id \<noteq> None \<Longrightarrow> active_jobs (set_job job_id st msg w) job_id \<noteq> None"
  by (auto simp: set_job_def split: option.splits)

lemma registered_run_steps:
  "active_jobs w job_id \<noteq> None
     \<Longrightarrow> active_jobs (run_steps commit_ok job_id steps w) job_id \<noteq> None"
proof (induction steps arbitrary: w)
  case Nil
  then show ?case by (simp add: run_steps_Nil)
next
  case (Cons s steps)
  have "active_jobs (apply_step commit_ok job_id w s) job_id \<noteq> None"
    using Cons.prems by (cases s) (simp_all add: apply_step_def registered_update registered_cancel)
  then show ?case using Cons.IH by (simp add: run_steps_Cons)
qed

lemma cancel_cancels:
  "active_jobs w job_id \<noteq> None \<Longrightarrow> is_cancelled job_id (cancel_scraping_job job_id w)"
  by (auto simp: cancel_scraping_job_def is_cancelled_def split: option.splits)

lemma cancel_status:
  "active_jobs w job_id \<noteq> None
     \<Longrightarrow> map_option status (active_jobs (cancel_scraping_job job_id w) job_id) = Some Cancelled
       \<and> map_option message (active_jobs (cancel_scraping_job job_id w) job_id)
           = Some Cancelled_by_user"
  by (auto simp: cancel_scraping_job_def split: option.splits)

lemma running_not_cancelled:
  "\<not> is_cancelled job_id (set_job job_id Running Initializing w)"
  by (auto simp: set_job_def is_cancelled_def split: option.splits)

lemma run_steps_schedule_cancel:
  assumes reg: "active_jobs w job_id \<noteq> None"
  shows "run_steps commit_ok job_id (schedule (Some n) evs) w
           = cancel_scraping_job job_id (run_steps commit_ok job_id (map Callback (take n evs)) w)"
proof -
  let ?wc = "cancel_scraping_job job_id (run_steps commit_ok job_id (map Callback (take n evs)) w)"
  have "is_cancelled job_id ?wc"
    using reg by (intro cancel_cancels registered_run_steps)
  then have "run_steps commit_ok job_id (map Callback (drop n evs)) ?wc = ?wc"
    by (rule run_steps_cancelled)
  then show ?thesis
    by (simp add: schedule_def run_steps_append run_steps_Cons apply_step_def)
qed

lemma callbacks_append: "callbacks (xs @ ys) = callbacks xs @ callbacks ys"
  by (induction xs rule: callbacks.induct) simp_all

lemma callbacks_map: "callbacks (map Callback evs) = evs"
  by (induction evs) simp_all

lemma callbacks_schedule: "callbacks (schedule cancel_at evs) = evs"
  by (cases cancel_at) (simp_all add: schedule_def callbacks_append callbacks_map)

lemma callbacks_Cons: "callbacks (s # steps) = callbacks [s] @ callbacks steps"
  by (cases s) simp_all

text \<open>
  Claim C6 as stated fails: the scraper never reads the job status. With the cancel
  request served after the fourth callback, before the first scroll iteration, the
  scraper still starts nine scroll iterations and all three listings.
\<close>

theorem cancel_does_not_stop_loops:
  "schedule (Some 4) (snd (scrape_with_progress shop_page)) ! 4 = Cancel_request
   \<and> iterations_begun (callbacks (drop 5 (schedule (Some 4) (snd (scrape_with_progress shop_page))))) = 9
   \<and> listings_begun (callbacks (drop 5 (schedule (Some 4) (snd (scrape_with_progress shop_page))))) = 3"
  by code_simp

text \<open>
  Claim C6, amended. Cancellation is observed by the progress callback, not by the
  loops: wherever the cancel request falls, the scraper issues the same callbacks as in
  a run without it, and from the request on every callback leaves the registry and the
  lead table exactly as the request left them.
\<close>

theorem cancel_mutes_callbacks:
  assumes reg: "active_jobs w job_id \<noteq> None"
  shows "run_steps commit_ok job_id (schedule (Some n) (snd (scrape_with_progress pg)))
             (set_job job_id Running Initializing w)
           = cancel_scraping_job job_id
               (run_steps commit_ok job_id (map Callback (take n (snd (scrape_with_progress pg))))
                  (set_job job_id Running Initializing w))
       \<and> list_all (\<lambda>w'. w' = cancel_scraping_job job_id
                                (run_steps commit_ok job_id
                                   (map Callback (take n (snd (scrape_with_progress pg))))
                                   (set_job job_id Running Initializing w)))
           (worlds_seen commit_ok job_id (map Callback (drop n (snd (scrape_with_progress pg))))
              (cancel_scraping_job job_id
                 (run_steps commit_ok job_id (map Callback (take n (snd (scrape_with_progress pg))))
                    (set_job job_id Running Initializing w))))
       \<and> callbacks (schedule (Some n) (snd (scrape_with_progress pg)))
           = snd (scrape_with_progress pg)"
proof -
  let ?w1 = "set_job job_id Running Initializing w"
  let ?wn = "run_steps commit_ok job_id (map Callback (take n (snd (scrape_with_progress pg)))) ?w1"
  have reg1: "active_jobs ?w1 job_id \<noteq> None" using reg by (rule registered_set_job)
  have regn: "active_jobs ?wn job_id \<noteq> None" using reg1 by (rule registered_run_steps)
  have canc: "is_cancelled job_id (cancel_scraping_job job_id ?wn)"
    using regn by (rule cancel_cancels)
  show ?thesis
    using run_steps_schedule_cancel [OF reg1, of commit_ok n "snd (scrape_with_progress pg)"]
      worlds_seen_cancelled [OF canc, of commit_ok "drop n (snd (scrape_with_progress pg))"]
      callbacks_schedule [of "Some n" "snd (scrape_with_progress pg)"]
    by blast
qed

theorem cancel_mutes_callbacks_witness:
  "active_jobs example_world ''job-1'' \<noteq> None
   \<and> callbacks (schedule (Some 4) (snd (scrape_with_progress shop_page)))
       = snd (scrape_with_progress shop_page)
   \<and> leads (run_steps always_commit ''job-1'' (schedule (Some 4) (snd (scrape_with_progress shop_page)))
              (set_job ''job-1'' Running Initializing example_world)) = []"
proof -
  have h: "active_jobs example_world ''job-1'' \<noteq> None"
    by (simp add: example_world_def)
  have l: "leads (cancel_scraping_job ''job-1''
               (run_steps always_commit ''job-1''
                  (map Callback (take 4 (snd (scrape_with_progress shop_page))))
                  (set_job ''job-1'' Running Initializing example_world))) = []"
    by code_simp
  from cancel_mutes_callbacks [OF h, of always_commit 4 shop_page] h l
  show ?thesis by simp
qed

text \<open>
  Claim C7 as stated fails: a cancel request that arrives after the job has completed
  rewrites status and message of the completed job.
\<close>

theorem cancel_after_completion:
  "job_view ''job-1'' (run_scraping_job always_commit ''job-1'' shop_page None example_world)
       = Some (Completed, 3, 3, Completed_message 2)
   \<and> job_view ''job-1'' (cancel_scraping_job ''job-1''
         (run_scraping_job always_commit ''job-1'' shop_page None example_world))
       = Some (Cancelled, 3, 3, Cancelled_by_user)"
  by code_simp

text \<open>
  The \<open>except\<close> branch of \<open>run_scraping_job\<close> does not check for cancellation either:
  a job cancelled during the scroll phase of a page that then fails ends as failed.
\<close>

lemma cancelled_then_failed:
  "job_view ''job-1'' (run_scraping_job always_commit ''job-1'' crash_page (Some 5) example_world)
       = Some (Failed, 0, 4, Error_message Page_crashed)"
  by code_simp

text \<open>
  Claim C7, amended. Cancelled is kept by the progress callback and by the normal end
  of a run: a callback on a cancelled job changes nothing, and when the scrape returns,
  the job that was cancelled during it ends exactly as the cancel request left it,
  with status cancelled and never completed.
\<close>

theorem cancelled_is_kept:
  assumes reg: "active_jobs w job_id \<noteq> None"
      and ret: "fst (scrape_with_progress pg) = Inr found"
  shows "run_scraping_job commit_ok job_id pg (Some n) w
           = cancel_scraping_job job_id
               (run_steps commit_ok job_id (map Callback (take n (snd (scrape_with_progress pg))))
                  (set_job job_id Running Initializing w))
       \<and> map_option status (active_jobs (run_scraping_job commit_ok job_id pg (Some n) w) job_id)
           = Some Cancelled
       \<and> map_option message (active_jobs (run_scraping_job commit_ok job_id pg (Some n) w) job_id)
           = Some Cancelled_by_user
       \<and> (is_cancelled job_id w' \<longrightarrow> update_progress_with_lead commit_ok job_id ev w' = w')"
proof -
  obtain evs where sp: "scrape_with_progress pg = (Inr found, evs)"
    using ret by (cases "scrape_with_progress pg") auto
  let ?w1 = "set_job job_id Running Initializing w"
  let ?evs = "snd (scrape_with_progress pg)"
  let ?wn = "run_steps commit_ok job_id (map Callback (take n ?evs)) ?w1"
  have reg1: "active_jobs ?w1 job_id \<noteq> None" using reg by (rule registered_set_job)
  have regn: "active_jobs ?wn job_id \<noteq> None" using reg1 by (rule registered_run_steps)
  have steps: "run_steps commit_ok job_id (schedule (Some n) ?evs) ?w1
                 = cancel_scraping_job job_id ?wn"
    using reg1 by (rule run_steps_schedule_cancel)
  have canc: "is_cancelled job_id (cancel_scraping_job job_id ?wn)"
    using regn by (rule cancel_cancels)
  have run: "run_scraping_job commit_ok job_id pg (Some n) w = cancel_scraping_job job_id ?wn"
    using sp steps canc running_not_cancelled [of job_id w]
    by (simp add: run_scraping_job_def Let_def)
  show ?thesis
    using run cancel_status [OF regn] update_cancelled [of job_id w' commit_ok ev] by simp
qed

theorem cancelled_is_kept_witness:
  "active_jobs example_world ''job-1'' \<noteq> None
   \<and> fst (scrape_with_progress shop_page)
       = Inr [\<lparr>name = ''Cafe Uno'', phone = ''0113 496 0000'', website = [], email = []\<rparr>,
              \<lparr>name = ''Bar Due'', phone = [], website = ''https://due.example'', email = []\<rparr>]
   \<and> map_option status
        (active_jobs (run_scraping_job always_commit ''job-1'' shop_page (Some 6) example_world) ''job-1'')
       = Some Cancelled"
proof -
  have h: "active_jobs example_world ''job-1'' \<noteq> None"
    by (simp add: example_world_def)
  have r: "fst (scrape_with_progress shop_page)
       = Inr [\<lparr>name = ''Cafe Uno'', phone = ''0113 496 0000'', website = [], email = []\<rparr>,
              \<lparr>name = ''Bar Due'', phone = [], website = ''https://due.example'', email = []\<rparr>]"
    by code_simp
  from cancelled_is_kept [OF h r, of always_commit 6] h r show ?thesis by blast
qed

section \<open>Progress counters\<close>

lemma counters_ok_update:
  "ev_progress ev \<le> ev_total ev \<Longrightarrow> counters_ok job_id w
     \<Longrightarrow> counters_ok job_id (update_progress_with_lead commit_ok job_id ev w)"
  by (auto simp: counters_ok_def update_progress_with_lead_def Let_def split: option.splits)

lemma counters_ok_cancel:
  "counters_ok job_id w \<Longrightarrow> counters_ok job_id (cancel_scraping_job job_id w)"
  by (auto simp: counters_ok_def cancel_scraping_job_def split: option.splits)

lemma counters_ok_set_job:
  "counters_ok job_id w \<Longrightarrow> counters_ok job_id (set_job job_id st msg w)"
  by (auto simp: counters_ok_def set_job_def split: option.splits)

lemma counters_ok_step:
  assumes "list_all (\<lambda>e. ev_progress e \<le> ev_total e) (callbacks [s])" and "counters_ok job_id w"
  shows "counters_ok job_id (apply_step commit_ok job_id w s)"
  using assms by (cases s) (simp_all add: apply_step_def counters_ok_update counters_ok_cancel)

lemma counters_ok_worlds:
  "list_all (\<lambda>e. ev_progress e \<le> ev_total e) (callbacks steps) \<Longrightarrow> counters_ok job_id w
     \<Longrightarrow> list_all (counters_ok job_id) (worlds_seen commit_ok job_id steps w)
       \<and> counters_ok job_id (run_steps commit_ok job_id steps w)"
proof (induction steps arbitrary: w)
  case Nil
  then show ?case by (simp add: run_steps_Nil)
next
  case (Cons s steps)
  from Cons.prems(1) have a: "list_all (\<lambda>e. ev_progress e \<le> ev_total e) (callbacks [s])"
    and b: "list_all (\<lambda>e. ev_progress e \<le> ev_total e) (callbacks steps)"
    by (subst (asm) callbacks_Cons, simp)+
  have "counters_ok job_id (apply_step commit_ok job_id w s)"
    using a Cons.prems(2) by (rule counters_ok_step)
  from Cons.IH [OF b this] Cons.prems(2) show ?case by (simp add: run_steps_Cons)
qed

text \<open>
  Claim C8. Every callback of a scrape reports a progress that is at most its total,
  and a registry entry whose progress is at most its total keeps that property in
  every state of the run, with or without a cancel request, and at its end.
\<close>

theorem progress_never_exceeds_total:
  assumes "counters_ok job_id w"
  shows "list_all (\<lambda>e. ev_progress e \<le> ev_total e) (snd (scrape_with_progress pg))
       \<and> list_all (counters_ok job_id)
           (worlds_seen commit_ok job_id (schedule cancel_at (snd (scrape_with_progress pg)))
              (set_job job_id Running Initializing w))
       \<and> counters_ok job_id (run_scraping_job commit_ok job_id pg cancel_at w)"
proof -
  let ?evs = "snd (scrape_with_progress pg)"
  let ?w1 = "set_job job_id Running Initializing w"
  have ev: "list_all (\<lambda>e. ev_progress e \<le> ev_total e) (callbacks (schedule cancel_at ?evs))"
    by (simp add: callbacks_schedule scrape_progress_le_total)
  have w1: "counters_ok job_id ?w1" using assms by (rule counters_ok_set_job)
  note steps = counters_ok_worlds [OF ev w1, of commit_ok]
  have "counters_ok job_id (run_scraping_job commit_ok job_id pg cancel_at w)"
    using steps w1
    by (cases "scrape_with_progress pg")
       (auto simp: run_scraping_job_def Let_def counters_ok_set_job split: sum.splits)
  with steps scrape_progress_le_total show ?thesis by blast
qed

theorem progress_never_exceeds_total_witness:
  "counters_ok ''job-1'' example_world
   \<and> counters_ok ''job-1'' (run_scraping_job always_commit ''job-1'' shop_page (Some 20) example_world)
   \<and> list_all (\<lambda>e. ev_progress e \<le> ev_total e) (snd (scrape_with_progress shop_page))"
proof -
  have h: "counters_ok ''job-1'' example_world"
    by (simp add: counters_ok_def example_world_def new_job_def)
  from progress_never_exceeds_total [OF h, of shop_page always_commit "Some 20"] h
  show ?thesis by blast
qed

section \<open>Leads that reach the lead table\<close>

lemma leads_update:
  assumes "case ev_new_lead ev of None \<Rightarrow> True | Some d \<Rightarrow> R (lead_row t d)"
      and "live t job_id w \<or> is_cancelled job_id w \<or> active_jobs w job_id = None"
  shows "\<exists>new. leads (update_progress_with_lead commit_ok job_id ev w) = leads w @ new
               \<and> list_all R new"
  using assms
  by (auto simp: update_progress_with_lead_def Let_def live_def is_cancelled_def
           split: option.splits)

lemma live_or_cancelled_update:
  "live t job_id w \<or> is_cancelled job_id w \<or> active_jobs w job_id = None
     \<Longrightarrow> live t job_id (update_progress_with_lead commit_ok job_id ev w)
         \<or> is_cancelled job_id (update_progress_with_lead commit_ok job_id ev w)
         \<or> active_jobs (update_progress_with_lead commit_ok job_id ev w) job_id = None"
  by (auto simp: update_progress_with_lead_def Let_def live_def is_cancelled_def
           split: option.splits)

lemma live_or_cancelled_cancel:
  "is_cancelled job_id (cancel_scraping_job job_id w)
     \<or> active_jobs (cancel_scraping_job job_id w) job_id = None"
  by (auto simp: cancel_scraping_job_def is_cancelled_def split: option.splits)

lemma leads_cancel: "leads (cancel_scraping_job job_id w) = leads w"
  by (simp add: cancel_scraping_job_def split: option.splits)

lemma leads_set_job: "leads (set_job job_id st msg w) = leads w"
  by (simp add: set_job_def split: option.splits)

lemma leads_run_steps:
  assumes "list_all (\<lambda>e. case ev_new_lead e of None \<Rightarrow> True | Some d \<Rightarrow> R (lead_row t d))
             (callbacks steps)"
      and "live t job_id w \<or> is_cancelled job_id w \<or> active_jobs w job_id = None"
  shows "\<exists>new. leads (run_steps commit_ok job_id steps w) = leads w @ new \<and> list_all R new"
  using assms
proof (induction steps arbitrary: w)
  case Nil
  then show ?case by (simp add: run_steps_Nil)
next
  case (Cons s steps)
  let ?w' = "apply_step commit_ok job_id w s"
  from Cons.prems(1)
  have a: "list_all (\<lambda>e. case ev_new_lead e of None \<Rightarrow> True | Some d \<Rightarrow> R (lead_row t d))
             (callbacks [s])"
    and b: "list_all (\<lambda>e. case ev_new_lead e of None \<Rightarrow> True | Some d \<Rightarrow> R (lead_row t d))
             (callbacks steps)"
    by (subst (asm) callbacks_Cons, simp)+
  have one: "(\<exists>new. leads ?w' = leads w @ new \<and> list_all R new)
           \<and> (live t job_id ?w' \<or> is_cancelled job_id ?w' \<or> active_jobs ?w' job_id = None)"
  proof (cases s)
    case (Callback e)
    with a have "case ev_new_lead e of None \<Rightarrow> True | Some d \<Rightarrow> R (lead_row t d)" by simp
    from leads_update [OF this Cons.prems(2), of commit_ok]
      live_or_cancelled_update [OF Cons.prems(2), of commit_ok e] Callback
    show ?thesis by (simp add: apply_step_def)
  next
    case Cancel_request
    then show ?thesis
      using live_or_cancelled_cancel [of job_id w] by (simp add: apply_step_def leads_cancel)
  qed
  then obtain new1 where n1: "leads ?w' = leads w @ new1" "list_all R new1" by blast
  from Cons.IH [OF b] one
  obtain new2 where n2: "leads (run_steps commit_ok job_id steps ?w') = leads ?w' @ new2"
    "list_all R new2" by blast
  have "leads (run_steps commit_ok job_id (s # steps) w) = leads w @ (new1 @ new2)"
    using n1 n2 by (simp add: run_steps_Cons)
  moreover have "list_all R (new1 @ new2)" using n1 n2 by simp
  ultimately show ?case by blast
qed

lemma running_live_or_absent:
  "live (case active_jobs w job_id of None \<Rightarrow> [] | Some j \<Rightarrow> search_term j) job_id
        (set_job job_id Running Initializing w)
   \<or> active_jobs (set_job job_id Running Initializing w) job_id = None"
  by (auto simp: set_job_def live_def split: option.splits)

lemma leads_run_scraping_job:
  assumes "list_all (\<lambda>e. case ev_new_lead e of None \<Rightarrow> True | Some d \<Rightarrow> \<forall>t. R (lead_row t d))
             (snd (scrape_with_progress pg))"
  shows "\<exists>new. leads (run_scraping_job commit_ok job_id pg cancel_at w) = leads w @ new
              \<and> list_all R new"
proof -
  let ?t = "case active_jobs w job_id of None \<Rightarrow> [] | Some j \<Rightarrow> search_term j"
  let ?w1 = "set_job job_id Running Initializing w"
  let ?evs = "snd (scrape_with_progress pg)"
  have ev: "list_all (\<lambda>e. case ev_new_lead e of None \<Rightarrow> True | Some d \<Rightarrow> R (lead_row ?t d))
              (callbacks (schedule cancel_at ?evs))"
    using assms unfolding callbacks_schedule
    by (auto simp: list_all_iff split: option.splits)
  have st: "live ?t job_id ?w1 \<or> is_cancelled job_id ?w1 \<or> active_jobs ?w1 job_id = None"
    using running_live_or_absent [of w job_id] by auto
  from leads_run_steps [OF ev st, of commit_ok]
  obtain new where new: "leads (run_steps commit_ok job_id (schedule cancel_at ?evs) ?w1)
                           = leads w @ new" "list_all R new"
    by (auto simp: leads_set_job)
  have "leads (run_scraping_job commit_ok job_id pg cancel_at w) = leads w @ new
        \<or> leads (run_scraping_job commit_ok job_id pg cancel_at w) = leads w @ []"
    using new(1)
    by (cases "scrape_with_progress pg")
       (auto simp: run_scraping_job_def Let_def leads_set_job split: sum.splits)
  moreover have "list_all R []" by simp
  ultimately show ?thesis using new(2) by blast
qed

lemma leads_named_rows:
  "\<exists>new. leads (run_scraping_job commit_ok job_id pg cancel_at w) = leads w @ new
         \<and> list_all (\<lambda>l. lead_name l \<noteq> []
                          \<and> (lead_phone l \<noteq> [] \<or> lead_website l \<noteq> [] \<or> lead_email l \<noteq> [])) new"
proof (rule leads_run_scraping_job)
  show "list_all (\<lambda>e. case ev_new_lead e of None \<Rightarrow> True
          | Some d \<Rightarrow> \<forall>t. lead_name (lead_row t d) \<noteq> []
               \<and> (lead_phone (lead_row t d) \<noteq> [] \<or> lead_website (lead_row t d) \<noteq> []
                    \<or> lead_email (lead_row t d) \<noteq> []))
          (snd (scrape_with_progress pg))"
    using scrape_named_leads [of pg]
    by (auto simp: list_all_iff lead_row_def has_contact_def split: option.splits)
qed

lemma live_update:
  "live t job_id w \<Longrightarrow> live t job_id (update_progress_with_lead commit_ok job_id ev w)"
  by (auto simp: update_progress_with_lead_def Let_def live_def split: option.splits)

lemma leads_mono_update:
  "r \<in> set (leads w) \<Longrightarrow> r \<in> set (leads (update_progress_with_lead commit_ok job_id ev w))"
  by (auto simp: update_progress_with_lead_def Let_def split: option.splits)

lemma saved_update:
  "live t job_id w \<Longrightarrow> ev_new_lead ev = Some d \<Longrightarrow> commit_ok (lead_row t d)
     \<Longrightarrow> lead_row t d \<in> set (leads (update_progress_with_lead commit_ok job_id ev w))"
  by (auto simp: update_progress_with_lead_def Let_def live_def split: option.splits)

lemma saved_run_steps:
  assumes "commit_ok (lead_row t d)" and "ev_new_lead e = Some d"
  shows "live t job_id w \<Longrightarrow> e \<in> set evs \<or> lead_row t d \<in> set (leads w)
           \<Longrightarrow> lead_row t d \<in> set (leads (run_steps commit_ok job_id (map Callback evs) w))"
proof (induction evs arbitrary: w)
  case Nil
  then show ?case by (simp add: run_steps_Nil)
next
  case (Cons x evs)
  let ?w' = "update_progress_with_lead commit_ok job_id x w"
  have l: "live t job_id ?w'" using Cons.prems(1) by (rule live_update)
  have "e \<in> set evs \<or> lead_row t d \<in> set (leads ?w')"
  proof (cases "x = e")
    case True
    have "lead_row t d \<in> set (leads ?w')"
      using Cons.prems(1) assms True
      by (intro saved_update [where t = t and d = d and commit_ok = commit_ok]) simp_all
    then show ?thesis by simp
  next
    case False
    then show ?thesis using Cons.prems(2) leads_mono_update by auto
  qed
  from Cons.IH [OF l this] show ?case by (simp add: run_steps_Cons apply_step_def)
qed

lemma saved_run_scraping_job:
  assumes "active_jobs w job_id = Some j" and "commit_ok (lead_row (search_term j) d)"
      and "ev_new_lead e = Some d" and "e \<in> set (snd (scrape_with_progress pg))"
  shows "lead_row (search_term j) d \<in> set (leads (run_scraping_job commit_ok job_id pg None w))"
proof -
  let ?w1 = "set_job job_id Running Initializing w"
  have l: "live (search_term j) job_id ?w1"
    using assms(1) by (simp add: live_def set_job_def)
  have "lead_row (search_term j) d
          \<in> set (leads (run_steps commit_ok job_id (map Callback (snd (scrape_with_progress pg))) ?w1))"
    using assms(2,3,4) l
    by (intro saved_run_steps [where t = "search_term j" and d = d and commit_ok = commit_ok
                                 and e = e]) simp_all
  moreover have "\<not> is_cancelled job_id ?w1" by (rule running_not_cancelled)
  ultimately show ?thesis
    by (cases "scrape_with_progress pg")
       (auto simp: run_scraping_job_def Let_def schedule_def leads_set_job split: sum.splits)
qed

text \<open>
  Claim C5 as stated fails in its second half: an item with only the website is not
  forwarded, because the loop asks for a name first. Nothing is attached to a callback,
  returned or saved.
\<close>

theorem website_only_counterexample:
  "listing website_only_page 0
     = Details \<lparr>name = [], phone = [], website = ''https://nameless.example'', email = []\<rparr>
   \<and> fst (scrape_with_progress website_only_page) = Inr []
   \<and> forwarded (snd (scrape_with_progress website_only_page)) = []
   \<and> leads (run_scraping_job always_commit ''job-1'' website_only_page None example_world) = []"
  by code_simp

text \<open>
  Claim C5, amended. Every item attached to a callback, and every row added to the lead
  table, has a name and a phone number, website or email; so an item with all fields
  empty, or with only the website, is never forwarded. An item with a name and a
  website is attached to a callback and returned, and its row is in the lead table at
  the end of a run without cancellation whose commit of the row succeeds.
\<close>

theorem contact_and_name_needed:
  "list_all (\<lambda>d. name d \<noteq> [] \<and> has_contact d) (forwarded (snd (scrape_with_progress pg)))
   \<and> (\<exists>new. leads (run_scraping_job commit_ok job_id pg cancel_at w) = leads w @ new
             \<and> list_all (\<lambda>l. lead_name l \<noteq> []
                   \<and> (lead_phone l \<noteq> [] \<or> lead_website l \<noteq> [] \<or> lead_email l \<noteq> [])) new)
   \<and> (goto_ok pg \<and> listings_found pg \<and> fst (scroll_and_load pg) = Inr n
        \<and> i < n \<and> listing pg i = Details d \<and> name d \<noteq> [] \<and> website d \<noteq> []
       \<longrightarrow> d \<in> set (forwarded (snd (scrape_with_progress pg)))
           \<and> fst (scrape_with_progress pg) = Inr (results (extract_all_listings pg n))
           \<and> d \<in> set (results (extract_all_listings pg n))
           \<and> (active_jobs w job_id = Some j \<and> commit_ok (lead_row (search_term j) d)
                \<longrightarrow> lead_row (search_term j) d
                      \<in> set (leads (run_scraping_job commit_ok job_id pg None w))))"
proof -
  have pos: "d \<in> set (forwarded (snd (scrape_with_progress pg)))
           \<and> fst (scrape_with_progress pg) = Inr (results (extract_all_listings pg n))
           \<and> d \<in> set (results (extract_all_listings pg n))
           \<and> (active_jobs w job_id = Some j \<and> commit_ok (lead_row (search_term j) d)
                \<longrightarrow> lead_row (search_term j) d
                      \<in> set (leads (run_scraping_job commit_ok job_id pg None w)))"
    if h: "goto_ok pg" "listings_found pg" "fst (scroll_and_load pg) = Inr n"
          "i < n" "listing pg i = Details d" "name d \<noteq> []" "website d \<noteq> []"
  proof -
    have hc: "has_contact d" using h(7) by (simp add: has_contact_def)
    note x = scrape_reaches_extraction [OF h(1,2,3)]
    from lead_is_forwarded_loop [OF h(5,6) hc h(4)] x
    obtain k where k: "lead_event (i + 1) n k d \<in> set (snd (scrape_with_progress pg))"
      and r: "d \<in> set (results (extract_all_listings pg n))" by blast
    have nl: "ev_new_lead (lead_event (i + 1) n k d) = Some d"
      by (simp add: lead_event_def)
    have f: "d \<in> set (forwarded (snd (scrape_with_progress pg)))"
      using k nl unfolding forwarded_mem by blast
    have s: "lead_row (search_term j) d
               \<in> set (leads (run_scraping_job commit_ok job_id pg None w))"
      if "active_jobs w job_id = Some j" "commit_ok (lead_row (search_term j) d)"
      using that nl k
      by (intro saved_run_scraping_job [where e = "lead_event (i + 1) n k d"]) simp_all
    from f x r s show ?thesis by blast
  qed
  from scrape_forwarded [of pg] leads_named_rows [of commit_ok job_id pg cancel_at w] pos
  show ?thesis by blast
qed

theorem contact_and_name_needed_witness:
  "goto_ok shop_page \<and> listings_found shop_page \<and> fst (scroll_and_load shop_page) = Inr 3
   \<and> listing shop_page 2
       = Details \<lparr>name = ''Bar Due'', phone = [], website = ''https://due.example'', email = []\<rparr>
   \<and> active_jobs example_world ''job-1'' = Some (new_job ''cafes in Leeds'')
   \<and> lead_row ''cafes in Leeds''
         \<lparr>name = ''Bar Due'', phone = [], website = ''https://due.example'', email = []\<rparr>
       \<in> set (leads (run_scraping_job always_commit ''job-1'' shop_page None example_world))"
proof -
  let ?d = "\<lparr>name = ''Bar Due'', phone = [], website = ''https://due.example'', email = []\<rparr>"
  have h: "goto_ok shop_page \<and> listings_found shop_page \<and> fst (scroll_and_load shop_page) = Inr 3
        \<and> (2::nat) < 3 \<and> listing shop_page 2 = Details ?d \<and> name ?d \<noteq> [] \<and> website ?d \<noteq> []"
    using shop_scroll by (simp add: shop_page_def)
  have j: "active_jobs example_world ''job-1'' = Some (new_job ''cafes in Leeds'')
         \<and> always_commit (lead_row (search_term (new_job ''cafes in Leeds'')) ?d)"
    by (simp add: example_world_def always_commit_def)
  have t: "search_term (new_job ''cafes in Leeds'') = ''cafes in Leeds''"
    by (simp add: new_job_def)
  from contact_and_name_needed [of shop_page always_commit "''job-1''" None example_world 3 2 ?d
      "new_job ''cafes in Leeds''"] h j
  have "lead_row (search_term (new_job ''cafes in Leeds'')) ?d
          \<in> set (leads (run_scraping_job always_commit ''job-1'' shop_page None example_world))"
    by blast
  with h j t show ?thesis by simp
qed

text \<open>
  Claim C10. Every item attached to a callback, every item returned, and every row
  added to the lead table has a name. An item without a name, whatever its other fields,
  is counted (the callback "Processed i+1/n" is issued for it) and is neither attached
  to a callback nor returned.
\<close>

theorem leads_need_a_name:
  "list_all (\<lambda>d. name d \<noteq> []) (forwarded (snd (scrape_with_progress pg)))
   \<and> (case fst (scrape_with_progress pg) of
         Inl e \<Rightarrow> True | Inr found \<Rightarrow> list_all (\<lambda>d. name d \<noteq> []) found)
   \<and> (\<exists>new. leads (run_scraping_job commit_ok job_id pg cancel_at w) = leads w @ new
             \<and> list_all (\<lambda>l. lead_name l \<noteq> []) new)
   \<and> (goto_ok pg \<and> listings_found pg \<and> fst (scroll_and_load pg) = Inr n
        \<and> i < n \<and> listing pg i = Details d \<and> name d = []
       \<longrightarrow> (\<exists>k. report (i + 1) n k (Processed (i + 1) n) \<in> set (snd (scrape_with_progress pg)))
           \<and> d \<notin> set (forwarded (snd (scrape_with_progress pg)))
           \<and> d \<notin> set (results (extract_all_listings pg n)))"
proof -
  have a: "list_all (\<lambda>d. name d \<noteq> []) (forwarded (snd (scrape_with_progress pg)))"
    using scrape_forwarded [of pg] by (auto simp: list_all_iff)
  have b: "case fst (scrape_with_progress pg) of
             Inl e \<Rightarrow> True | Inr found \<Rightarrow> list_all (\<lambda>d. name d \<noteq> []) found"
    by (rule scrape_results) simp
  have c: "\<exists>new. leads (run_scraping_job commit_ok job_id pg cancel_at w) = leads w @ new
             \<and> list_all (\<lambda>l. lead_name l \<noteq> []) new"
    using leads_named_rows [of commit_ok job_id pg cancel_at w] by (auto simp: list_all_iff)
  have d: "(\<exists>k. report (i + 1) n k (Processed (i + 1) n) \<in> set (snd (scrape_with_progress pg)))
           \<and> d \<notin> set (forwarded (snd (scrape_with_progress pg)))
           \<and> d \<notin> set (results (extract_all_listings pg n))"
    if h: "goto_ok pg" "listings_found pg" "fst (scroll_and_load pg) = Inr n"
          "i < n" "listing pg i = Details d" "name d = []"
  proof -
    from nameless_is_processed_loop [OF h(5,6,4)] scrape_reaches_extraction [OF h(1,2,3)]
    have "\<exists>k. report (i + 1) n k (Processed (i + 1) n) \<in> set (snd (scrape_with_progress pg))"
      by blast
    moreover have "d \<notin> set (forwarded (snd (scrape_with_progress pg)))"
      using a h(6) by (auto simp: list_all_iff)
    moreover have "list_all (\<lambda>d. name d \<noteq> []) (results (extract_all_listings pg n))"
      by (rule extract_all_results) simp
    then have "d \<notin> set (results (extract_all_listings pg n))"
      using h(6) by (auto simp: list_all_iff)
    ultimately show ?thesis by blast
  qed
  from a b c d show ?thesis by blast
qed

theorem leads_need_a_name_witness:
  "goto_ok shop_page \<and> listings_found shop_page \<and> fst (scroll_and_load shop_page) = Inr 3
   \<and> listing shop_page 1
       = Details \<lparr>name = [], phone = [], website = ''https://nameless.example'', email = []\<rparr>
   \<and> \<lparr>name = [], phone = [], website = ''https://nameless.example'', email = []\<rparr>
       \<notin> set (forwarded (snd (scrape_with_progress shop_page)))"
proof -
  have h: "goto_ok shop_page \<and> listings_found shop_page \<and> fst (scroll_and_load shop_page) = Inr 3
        \<and> (1::nat) < 3
        \<and> listing shop_page 1
            = Details \<lparr>name = [], phone = [], website = ''https://nameless.example'', email = []\<rparr>
        \<and> name \<lparr>name = [], phone = [], website = ''https://nameless.example'', email = []\<rparr> = []"
    using shop_scroll by (simp add: shop_page_def)
  from leads_need_a_name [of shop_page always_commit "''job-1''" None example_world 3 1
      "\<lparr>name = [], phone = [], website = ''https://nameless.example'', email = []\<rparr>"] h
  show ?thesis by blast
qed

section \<open>The proxy list\<close>

lemma get_working_proxy_cached:
  "proxies pr \<noteq> []
     \<Longrightarrow> snd (get_working_proxy unicode_digit responses order alive pr) = pr"
  by (simp add: get_working_proxy_def Let_def)

lemma get_working_proxy_last_update:
  "last_update (snd (get_working_proxy unicode_digit responses order alive pr)) = last_update pr
   \<and> update_interval (snd (get_working_proxy unicode_digit responses order alive pr))
       = update_interval pr"
  by (simp add: get_working_proxy_def Let_def load_proxies_def)

lemma get_working_proxy_failed_refresh:
  "proxies pr = [] \<Longrightarrow> list_all (\<lambda>r. r = None) responses
     \<Longrightarrow> fst (get_working_proxy unicode_digit responses order alive pr) = None"
proof -
  assume e: "proxies pr = []" and n: "list_all (\<lambda>r. r = None) responses"
  have c: "concat (map (\<lambda>r. case r of None \<Rightarrow> [] | Some ls \<Rightarrow> ls) responses) = []"
    using n by (induction responses) auto
  have "proxies (load_proxies unicode_digit responses pr) = []"
    unfolding load_proxies_def Let_def c by simp
  then show ?thesis
    using e by (simp add: get_working_proxy_def Let_def sample_def)
qed

lemma valid_examples:
  "valid_proxy unicode_digit (ascii ''10.0.0.1:8080'')
   \<and> valid_proxy unicode_digit (ascii ''10.0.0.2:3128'')
   \<and> \<not> valid_proxy unicode_digit (ascii ''not a proxy'')"
  by (simp add: valid_proxy_def isdigit_def ascii_def colon_def List.member_iff)

text \<open>
  Claim C9. \<open>get_working_proxy\<close> reads no clock and never compares \<open>last_update\<close> with
  \<open>update_interval\<close>: the rotator that cached one proxy when it was created keeps
  serving that list, however late the call comes. No download happens (\<open>fetches\<close> stays
  1, \<open>last_update\<close> stays 0) and the answer is "no proxy", although a download would
  have found a proxy that passes the probe.
\<close>

theorem proxy_list_never_refreshed:
  "cached_rotator unicode_digit
     = \<lparr>proxies = [ascii ''http://10.0.0.1:8080''], last_update = 0,
        update_interval = 3600, fetches = 1\<rparr>
   \<and> get_working_proxy unicode_digit fresh_responses [0] only_fresh_alive
        (cached_rotator unicode_digit)
       = (None, cached_rotator unicode_digit)
   \<and> fst (get_working_proxy unicode_digit fresh_responses [0] only_fresh_alive
             (load_proxies unicode_digit fresh_responses (cached_rotator unicode_digit)))
       = Some (ascii ''http://10.0.0.2:3128'')"
proof -
  have c: "cached_rotator unicode_digit
     = \<lparr>proxies = [ascii ''http://10.0.0.1:8080''], last_update = 0,
        update_interval = 3600, fetches = 1\<rparr>"
    using valid_examples [of unicode_digit]
    by (simp add: cached_rotator_def init_rotator_def load_proxies_def ascii_def)
  have d: "\<not> only_fresh_alive (ascii ''http://10.0.0.1:8080'')"
    by (simp add: only_fresh_alive_def ascii_def)
  have g: "get_working_proxy unicode_digit fresh_responses [0] only_fresh_alive
             (cached_rotator unicode_digit) = (None, cached_rotator unicode_digit)"
    using d unfolding c by (simp add: get_working_proxy_def sample_def)
  have l: "proxies (load_proxies unicode_digit fresh_responses (cached_rotator unicode_digit))
             = [ascii ''http://10.0.0.2:3128'']"
    using valid_examples [of unicode_digit]
    by (simp add: load_proxies_def fresh_responses_def ascii_def)
  have f: "fst (get_working_proxy unicode_digit fresh_responses [0] only_fresh_alive
             (load_proxies unicode_digit fresh_responses (cached_rotator unicode_digit)))
       = Some (ascii ''http://10.0.0.2:3128'')"
    using l by (simp add: get_working_proxy_def sample_def only_fresh_alive_def)
  from c g f show ?thesis by blast
qed

end
